theory Spec2Isabelle
  imports Main
begin

section \<open>Python strings\<close>

text \<open>
  A Python \<open>str\<close> is modelled as a \<open>string\<close>, one \<open>char\<close> per code point; the model
  covers the code points below 256. On these, \<open>str.isspace\<close>, \<open>str.strip\<close> and the
  regular-expression class \<open>\s\<close> agree on the twelve characters below, and \<open>\d\<close> is the
  ten ASCII digits.
\<close>

definition isspace :: "char \<Rightarrow> bool" where
  "isspace c = (c \<in> {CHR 0x09, CHR 0x0A, CHR 0x0B, CHR 0x0C, CHR 0x0D, CHR 0x1C,
                      CHR 0x1D, CHR 0x1E, CHR 0x1F, CHR 0x20, CHR 0x85, CHR 0xA0})"

definition isdigit :: "char \<Rightarrow> bool" where
  "isdigit c = (c \<in> set ''0123456789'')"

definition str_lstrip :: "string \<Rightarrow> string" where
  "str_lstrip s = dropWhile isspace s"

definition str_rstrip :: "string \<Rightarrow> string" where
  "str_rstrip s = rev (dropWhile isspace (rev s))"

definition str_strip :: "string \<Rightarrow> string" where
  "str_strip s = str_rstrip (str_lstrip s)"

text \<open>\<open>s.rstrip(chars)\<close>: drops the trailing characters that occur in \<open>chars\<close>.\<close>

definition str_rstrip_chars :: "string \<Rightarrow> string \<Rightarrow> string" where
  "str_rstrip_chars chars s = rev (dropWhile (\<lambda>c. c \<in> set chars) (rev s))"

definition startswith :: "string \<Rightarrow> string \<Rightarrow> bool" where
  "startswith s p = (take (length p) s = p)"

definition endswith :: "string \<Rightarrow> string \<Rightarrow> bool" where
  "endswith s p = startswith (rev s) (rev p)"

text \<open>\<open>s.split(c)\<close> for a one-character separator: never the empty list.\<close>

fun str_split :: "char \<Rightarrow> string \<Rightarrow> string list" where
  "str_split c [] = [[]]"
| "str_split c (x # xs) =
     (if x = c then [] # str_split c xs
      else (x # hd (str_split c xs)) # tl (str_split c xs))"

fun str_join :: "string \<Rightarrow> string list \<Rightarrow> string" where
  "str_join sep [] = []"
| "str_join sep [x] = x"
| "str_join sep (x # y # ys) = x @ sep @ str_join sep (y # ys)"

text \<open>\<open>s.replace(old, new, 1)\<close>: the first occurrence only.\<close>

fun replace_first :: "string \<Rightarrow> string \<Rightarrow> string \<Rightarrow> string" where
  "replace_first old new [] = (if old = [] then new else [])"
| "replace_first old new (c # cs) =
     (if startswith (c # cs) old then new @ drop (length old) (c # cs)
      else c # replace_first old new cs)"

text \<open>\<open>s.replace(' ', '')\<close>: every occurrence of the one character is removed.\<close>

definition remove_char :: "char \<Rightarrow> string \<Rightarrow> string" where
  "remove_char c s = filter (\<lambda>x. x \<noteq> c) s"

section \<open>The regular expressions of the scripts\<close>

text \<open>
  Every pattern of the two scripts is a sequence of character classes, each taken once
  or repeated (\<open>+\<close>, \<open>*\<close>, \<open>+?\<close>), with an optional \<open>$\<close>. The matcher below is the
  backtracking matcher of Python's \<open>re\<close> on such patterns: a greedy repetition tries the
  longest run first, a lazy one the shortest, and the first way through the whole pattern
  wins. It returns the piece of the subject taken by each item, from which the groups
  are read. \<open>$\<close> holds at the end of the subject and before a final newline.
\<close>

datatype quant = Once | Plus | Star | LazyPlus

datatype atom = Cls "char \<Rightarrow> bool" quant | Eol

fun desc :: "nat \<Rightarrow> nat list" where
  "desc 0 = []"
| "desc (Suc n) = Suc n # desc n"

text \<open>The repetition counts an item tries, in order, when at most \<open>n\<close> characters fit.\<close>

fun cands :: "quant \<Rightarrow> nat \<Rightarrow> nat list" where
  "cands Once n = (if 1 \<le> n then [1] else [])"
| "cands Plus n = desc n"
| "cands Star n = desc n @ [0]"
| "cands LazyPlus n = rev (desc n)"

fun first_some :: "('a \<Rightarrow> 'b option) \<Rightarrow> 'a list \<Rightarrow> 'b option" where
  "first_some f [] = None"
| "first_some f (x # xs) = (case f x of Some y \<Rightarrow> Some y | None \<Rightarrow> first_some f xs)"

fun re_match :: "atom list \<Rightarrow> string \<Rightarrow> string list option" where
  "re_match [] s = Some []"
| "re_match (Eol # as) s =
     (if s = [] \<or> s = [CHR 0x0A] then map_option (\<lambda>r. [] # r) (re_match as s) else None)"
| "re_match (Cls P q # as) s =
     first_some (\<lambda>k. map_option (\<lambda>r. take k s # r) (re_match as (drop k s)))
       (cands q (length (takeWhile P s)))"

text \<open>
  \<open>re.sub\<close> for a pattern that cannot match the empty string: scan from the left, replace
  the match found at the current position and go on behind it, otherwise copy one
  character. The matcher \<open>m\<close> gives the length of the match and its replacement; the
  counter is the number of characters still covered by the last match.
\<close>

fun re_sub_from :: "(string \<Rightarrow> (nat \<times> string) option) \<Rightarrow> nat \<Rightarrow> string \<Rightarrow> string" where
  "re_sub_from m k [] = []"
| "re_sub_from m (Suc k) (c # cs) = re_sub_from m k cs"
| "re_sub_from m 0 (c # cs) =
     (case m (c # cs) of
        Some (n, rep) \<Rightarrow> rep @ re_sub_from m (n - 1) cs
      | None \<Rightarrow> c # re_sub_from m 0 cs)"

definition re_sub :: "(string \<Rightarrow> (nat \<times> string) option) \<Rightarrow> string \<Rightarrow> string" where
  "re_sub m s = re_sub_from m 0 s"

definition is_char :: "char \<Rightarrow> char \<Rightarrow> bool" where
  "is_char a c = (c = a)"

definition one_of :: "string \<Rightarrow> char \<Rightarrow> bool" where
  "one_of cs c = (c \<in> set cs)"

definition any_char :: "char \<Rightarrow> bool" where
  "any_char c = (c \<noteq> CHR 0x0A)"

definition none_of :: "string \<Rightarrow> char \<Rightarrow> bool" where
  "none_of cs c = (c \<notin> set cs)"

text \<open>\<^verbatim>\<open>^(#+\s+.+?)([.,;:]+)(\s*)$\<close>\<close>

definition heading_punct_rx :: "atom list" where
  "heading_punct_rx =
     [Cls (is_char CHR ''#'') Plus, Cls isspace Plus, Cls any_char LazyPlus,
      Cls (one_of ''.,;:'') Plus, Cls isspace Star, Eol]"

text \<open>\<^verbatim>\<open>^    [-*]\s+\<close>\<close>

definition indent_list_rx :: "atom list" where
  "indent_list_rx =
     [Cls (is_char CHR '' '') Once, Cls (is_char CHR '' '') Once, Cls (is_char CHR '' '') Once,
      Cls (is_char CHR '' '') Once, Cls (one_of ''-*'') Once, Cls isspace Plus]"

text \<open>\<^verbatim>\<open>\*\s+([^*]+?)\s+\*\<close>\<close>

definition emphasis_rx :: "atom list" where
  "emphasis_rx =
     [Cls (is_char CHR ''*'') Once, Cls isspace Plus, Cls (none_of ''*'') LazyPlus,
      Cls isspace Plus, Cls (is_char CHR ''*'') Once]"

text \<open>\<^verbatim>\<open>^\|.+\|$\<close>\<close>

definition table_row_rx :: "atom list" where
  "table_row_rx = [Cls (is_char CHR ''|'') Once, Cls any_char Plus, Cls (is_char CHR ''|'') Once, Eol]"

text \<open>\<^verbatim>\<open>^\|[-:| ]+\|$\<close>\<close>

definition table_sep_rx :: "atom list" where
  "table_sep_rx =
     [Cls (is_char CHR ''|'') Once, Cls (one_of ''-:| '') Plus, Cls (is_char CHR ''|'') Once, Eol]"

text \<open>\<^verbatim>\<open>^(\s*)[-*]\s+\<close> and \<^verbatim>\<open>^(\s*)\d+\.\s+\<close>, the two alternatives of the list pattern.\<close>

definition unordered_rx :: "atom list" where
  "unordered_rx = [Cls isspace Star, Cls (one_of ''-*'') Once, Cls isspace Plus]"

definition ordered_rx :: "atom list" where
  "ordered_rx = [Cls isspace Star, Cls isdigit Plus, Cls (is_char CHR ''.'') Once, Cls isspace Plus]"

text \<open>\<^verbatim>\<open>\n\n\n+\<close>\<close>

definition blank_run_rx :: "atom list" where
  "blank_run_rx =
     [Cls (is_char CHR 0x0A) Once, Cls (is_char CHR 0x0A) Once, Cls (is_char CHR 0x0A) Plus]"

section \<open>fix-remaining-md-errors.py\<close>

text \<open>MD026: group 1 and group 3 of the heading pattern, the punctuation run dropped.\<close>

definition md026 :: "string \<Rightarrow> string" where
  "md026 line =
     (if startswith line ''#'' then
        (case re_match heading_punct_rx line of
           Some ps \<Rightarrow> concat (take 3 ps) @ ps ! 4
         | None \<Rightarrow> line)
      else line)"

text \<open>MD007: four spaces before a list marker become two.\<close>

definition md007 :: "string \<Rightarrow> string" where
  "md007 line =
     (if re_match indent_list_rx line \<noteq> None then replace_first ''    '' ''  '' line else line)"

text \<open>MD009: trailing spaces, unless the line ends in two of them.\<close>

definition md009 :: "string \<Rightarrow> string" where
  "md009 line =
     (if endswith line '' '' \<and> \<not> endswith line ''  '' then str_rstrip line else line)"

text \<open>MD037: the match of the emphasis pattern is replaced by \<open>*\<close>, group 1, \<open>*\<close>.\<close>

definition emphasis_match :: "string \<Rightarrow> (nat \<times> string) option" where
  "emphasis_match s =
     map_option (\<lambda>ps. (length (concat ps), ''*'' @ ps ! 2 @ ''*'')) (re_match emphasis_rx s)"

definition md037 :: "string \<Rightarrow> string" where
  "md037 line = re_sub emphasis_match line"

text \<open>MD060: the cells of a table row that is not a separator row are trimmed.\<close>

definition compact_parts :: "string list \<Rightarrow> string list" where
  "compact_parts parts =
     map (\<lambda>j. if j = 0 \<or> j = length parts - 1 then parts ! j else str_strip (parts ! j))
       [0..<length parts]"

definition md060 :: "string \<Rightarrow> string" where
  "md060 line =
     (if CHR ''|'' \<in> set line \<and> re_match table_row_rx (str_strip line) \<noteq> None then
        (if re_match table_sep_rx line = None
         then str_join ''|'' (compact_parts (str_split CHR ''|'' line))
         else line)
      else line)"

text \<open>
  The rewrites of one line outside a code block, in the order of the loop body. The
  MD029 branch of the source matches and does nothing.
\<close>

definition fix_line :: "string \<Rightarrow> string" where
  "fix_line line = md060 (md037 (md009 (md007 (md026 line))))"

fun errors_loop :: "bool \<Rightarrow> string list \<Rightarrow> string list" where
  "errors_loop in_code_block [] = []"
| "errors_loop in_code_block (line # rest) =
     (if startswith (str_strip line) ''```'' then line # errors_loop (\<not> in_code_block) rest
      else if in_code_block then line # errors_loop in_code_block rest
      else fix_line line # errors_loop in_code_block rest)"

definition fix_markdown_errors :: "string \<Rightarrow> string" where
  "fix_markdown_errors content =
     str_join [CHR 0x0A] (errors_loop False (str_split (CHR 0x0A) content))"

section \<open>fix-md-complete.py\<close>

subsection \<open>First pass\<close>

definition fixed_parts :: "string list \<Rightarrow> string list" where
  "fixed_parts parts =
     map (\<lambda>j. if j = 0 \<or> j = length parts - 1 then parts ! j
              else '' '' @ remove_char CHR '' '' (str_strip (parts ! j)) @ '' '')
       [0..<length parts]"

text \<open>
  One line of the first pass: \<open>lines[i]\<close> is overwritten when the line is a bare fence, and
  again when the line (as read) is a table separator.
\<close>

definition first_pass_line :: "string \<Rightarrow> string" where
  "first_pass_line line =
     (let cur = (if str_strip line = ''```'' then ''```text'' else line)
      in if re_match table_sep_rx line \<noteq> None
         then str_join ''|'' (fixed_parts (str_split CHR ''|'' line))
         else cur)"

definition first_pass :: "string list \<Rightarrow> string list" where
  "first_pass lines = map first_pass_line lines"

subsection \<open>Second pass\<close>

text \<open>
  The second pass reads its neighbours and the second character of a line by index.
  An index out of range raises in Python, so indexing returns an error value here and
  the pass is written with the error threaded through.
\<close>

datatype error = IndexError

definition getitem :: "'a list \<Rightarrow> int \<Rightarrow> error + 'a" where
  "getitem xs i =
     (if 0 \<le> i \<and> i < int (length xs) then Inr (xs ! nat i)
      else if i < 0 \<and> - int (length xs) \<le> i then Inr (xs ! nat (int (length xs) + i))
      else Inl IndexError)"

definition and_then :: "error + 'a \<Rightarrow> ('a \<Rightarrow> error + 'b) \<Rightarrow> error + 'b" where
  "and_then m f = (case m of Inl e \<Rightarrow> Inl e | Inr v \<Rightarrow> f v)"

definition is_heading :: "string \<Rightarrow> error + bool" where
  "is_heading line =
     (if startswith line ''#'' \<and> length line > 1
      then and_then (getitem line 1) (\<lambda>c. Inr (c \<in> {CHR '' '', CHR ''#''}))
      else Inr False)"

definition is_list :: "string \<Rightarrow> bool" where
  "is_list line = (re_match unordered_rx line \<noteq> None \<or> re_match ordered_rx line \<noteq> None)"

definition is_code_fence :: "string \<Rightarrow> bool" where
  "is_code_fence line = startswith (str_strip line) ''```''"

definition is_blank :: "string \<Rightarrow> bool" where
  "is_blank line = (str_strip line = [])"

text \<open>What the loop body appends for line \<open>i\<close>.\<close>

definition second_pass_step :: "string list \<Rightarrow> nat \<Rightarrow> string \<Rightarrow> error + string list" where
  "second_pass_step lines i line =
     and_then (if i > 0 then getitem lines (int i - 1) else Inr []) (\<lambda>prev_line.
     and_then (if int i < int (length lines) - 1 then getitem lines (int i + 1) else Inr [])
       (\<lambda>next_line.
     and_then (is_heading line) (\<lambda>is_h.
     and_then (is_heading prev_line) (\<lambda>prev_is_heading.
     and_then (is_heading next_line) (\<lambda>next_is_heading.
       Inr ((if is_h \<and> \<not> is_blank prev_line \<and> \<not> prev_is_heading \<and> str_strip prev_line \<noteq> []
             then [[]] else [])
          @ (if is_list line \<and> \<not> is_blank prev_line \<and> \<not> is_list prev_line
                \<and> \<not> prev_is_heading \<and> \<not> is_code_fence prev_line \<and> str_strip prev_line \<noteq> []
             then [[]] else [])
          @ (if is_code_fence line \<and> \<not> is_blank prev_line \<and> \<not> prev_is_heading
                \<and> str_strip prev_line \<noteq> []
             then [[]] else [])
          @ [line]
          @ (if is_h \<and> \<not> is_blank next_line \<and> \<not> next_is_heading \<and> str_strip next_line \<noteq> []
             then [[]] else [])
          @ (if is_list line \<and> \<not> is_blank next_line \<and> \<not> is_list next_line
                \<and> \<not> next_is_heading \<and> str_strip next_line \<noteq> []
             then [[]] else [])
          @ (if is_code_fence line \<and> \<not> is_blank next_line \<and> \<not> next_is_heading
                \<and> str_strip next_line \<noteq> []
             then [[]] else [])))))))"

fun second_pass_loop :: "string list \<Rightarrow> nat \<Rightarrow> string list \<Rightarrow> error + string list" where
  "second_pass_loop lines i [] = Inr []"
| "second_pass_loop lines i (line # rest) =
     and_then (second_pass_step lines i line) (\<lambda>out.
     and_then (second_pass_loop lines (Suc i) rest) (\<lambda>result. Inr (out @ result)))"

definition second_pass :: "string list \<Rightarrow> error + string list" where
  "second_pass lines = second_pass_loop lines 0 lines"

subsection \<open>Clean-up and the whole function\<close>

text \<open>MD012: \<^verbatim>\<open>re.sub(r'\n\n\n+', '\n\n', text)\<close>.\<close>

definition blank_run_match :: "string \<Rightarrow> (nat \<times> string) option" where
  "blank_run_match s =
     map_option (\<lambda>ps. (length (concat ps), [CHR 0x0A, CHR 0x0A])) (re_match blank_run_rx s)"

definition collapse_blank_runs :: "string \<Rightarrow> string" where
  "collapse_blank_runs text = re_sub blank_run_match text"

definition fix_markdown_complete :: "string \<Rightarrow> error + string" where
  "fix_markdown_complete content =
     and_then (second_pass (first_pass (str_split (CHR 0x0A) content))) (\<lambda>result.
       Inr (str_rstrip_chars [CHR 0x0A] (collapse_blank_runs (str_join [CHR 0x0A] result))
            @ [CHR 0x0A]))"

section \<open>The second pass without the error value\<close>

text \<open>
  The same classification and the same loop body, reading the second character and the
  neighbours directly; shown below to be what the checked pass returns.
\<close>

definition heading :: "string \<Rightarrow> bool" where
  "heading line =
     (startswith line ''#'' \<and> length line > 1 \<and> line ! 1 \<in> {CHR '' '', CHR ''#''})"

definition emit :: "string \<Rightarrow> string \<Rightarrow> string \<Rightarrow> string list" where
  "emit prev_line line next_line =
       (if heading line \<and> \<not> is_blank prev_line \<and> \<not> heading prev_line \<and> str_strip prev_line \<noteq> []
        then [[]] else [])
     @ (if is_list line \<and> \<not> is_blank prev_line \<and> \<not> is_list prev_line
           \<and> \<not> heading prev_line \<and> \<not> is_code_fence prev_line \<and> str_strip prev_line \<noteq> []
        then [[]] else [])
     @ (if is_code_fence line \<and> \<not> is_blank prev_line \<and> \<not> heading prev_line
           \<and> str_strip prev_line \<noteq> []
        then [[]] else [])
     @ [line]
     @ (if heading line \<and> \<not> is_blank next_line \<and> \<not> heading next_line \<and> str_strip next_line \<noteq> []
        then [[]] else [])
     @ (if is_list line \<and> \<not> is_blank next_line \<and> \<not> is_list next_line
           \<and> \<not> heading next_line \<and> str_strip next_line \<noteq> []
        then [[]] else [])
     @ (if is_code_fence line \<and> \<not> is_blank next_line \<and> \<not> heading next_line
           \<and> str_strip next_line \<noteq> []
        then [[]] else [])"

definition prev_of :: "string list \<Rightarrow> nat \<Rightarrow> string" where
  "prev_of lines i = (if i > 0 then lines ! (i - 1) else [])"

definition next_of :: "string list \<Rightarrow> nat \<Rightarrow> string" where
  "next_of lines i = (if i + 1 < length lines then lines ! (i + 1) else [])"

fun insert_blanks :: "string \<Rightarrow> string list \<Rightarrow> string list" where
  "insert_blanks prev_line [] = []"
| "insert_blanks prev_line (line # rest) =
     emit prev_line line (case rest of [] \<Rightarrow> [] | next_line # _ \<Rightarrow> next_line)
     @ insert_blanks line rest"

definition finish :: "string list \<Rightarrow> string" where
  "finish result =
     str_rstrip_chars [CHR 0x0A] (collapse_blank_runs (str_join [CHR 0x0A] result)) @ [CHR 0x0A]"

section \<open>Notions the claims speak of\<close>

text \<open>
  The value of \<open>in_code_block\<close> when the loop of \<open>fix_markdown_errors\<close>, started with
  the given value, reaches line \<open>i\<close>: every line whose trimmed content starts with the
  fence delimiter flips it.
\<close>

fun fence_state :: "bool \<Rightarrow> string list \<Rightarrow> nat \<Rightarrow> bool" where
  "fence_state in_code_block lines 0 = in_code_block"
| "fence_state in_code_block [] (Suc i) = in_code_block"
| "fence_state in_code_block (line # rest) (Suc i) =
     fence_state (if startswith (str_strip line) ''```'' then \<not> in_code_block else in_code_block) rest i"

text \<open>
  The heading classification in the words of the specification: the line starts with
  \<open>#\<close>, and the character after the run of \<open>#\<close> at its start is a space or another
  \<open>#\<close>. The run is the whole run, so that character is never a \<open>#\<close>.
\<close>

definition heading_by_run :: "string \<Rightarrow> bool" where
  "heading_by_run line =
     (startswith line ''#'' \<and>
      (case dropWhile (\<lambda>c. c = CHR ''#'') line of
         [] \<Rightarrow> False
       | c # _ \<Rightarrow> c \<in> {CHR '' '', CHR ''#''}))"

section \<open>Notions used in the proof of idempotence\<close>

text \<open>
  The blank lines the loop body of the second pass puts before and after a line, read
  off \<open>emit\<close>; two neighbours are settled when neither calls for a blank line between
  them and the second is left alone by the first pass; a chain is a list in which all
  neighbours are settled, seen from the line before it.
\<close>

definition blanks_before :: "string \<Rightarrow> string \<Rightarrow> string list" where
  "blanks_before prev_line line =
       (if heading line \<and> \<not> is_blank prev_line \<and> \<not> heading prev_line \<and> str_strip prev_line \<noteq> []
        then [[]] else [])
     @ (if is_list line \<and> \<not> is_blank prev_line \<and> \<not> is_list prev_line
           \<and> \<not> heading prev_line \<and> \<not> is_code_fence prev_line \<and> str_strip prev_line \<noteq> []
        then [[]] else [])
     @ (if is_code_fence line \<and> \<not> is_blank prev_line \<and> \<not> heading prev_line
           \<and> str_strip prev_line \<noteq> []
        then [[]] else [])"

definition blanks_after :: "string \<Rightarrow> string \<Rightarrow> string list" where
  "blanks_after line next_line =
       (if heading line \<and> \<not> is_blank next_line \<and> \<not> heading next_line \<and> str_strip next_line \<noteq> []
        then [[]] else [])
     @ (if is_list line \<and> \<not> is_blank next_line \<and> \<not> is_list next_line
           \<and> \<not> heading next_line \<and> str_strip next_line \<noteq> []
        then [[]] else [])
     @ (if is_code_fence line \<and> \<not> is_blank next_line \<and> \<not> heading next_line
           \<and> str_strip next_line \<noteq> []
        then [[]] else [])"

definition settled :: "string \<Rightarrow> string \<Rightarrow> bool" where
  "settled a b = (blanks_before a b = [] \<and> blanks_after a b = [] \<and> first_pass_line b = b)"

fun chain :: "string \<Rightarrow> string list \<Rightarrow> bool" where
  "chain q [] = True"
| "chain q (l # ls) = (settled q l \<and> chain l ls)"

definition next_or_empty :: "string list \<Rightarrow> string" where
  "next_or_empty rest = (case rest of [] \<Rightarrow> [] | next_line # _ \<Rightarrow> next_line)"

text \<open>A text without three newlines in a row.\<close>

fun no_blank_run :: "string \<Rightarrow> bool" where
  "no_blank_run [] = True"
| "no_blank_run (c # cs) =
     (\<not> startswith (c # cs) [CHR 0x0A, CHR 0x0A, CHR 0x0A] \<and> no_blank_run cs)"

text \<open>The rewrite of one interior cell of a separator row.\<close>

definition pad_cell :: "string \<Rightarrow> string" where
  "pad_cell part = '' '' @ remove_char CHR '' '' (str_strip part) @ '' ''"

section \<open>Splitting and joining\<close>

lemma str_split_not_Nil [simp]: "str_split c s \<noteq> []"
  by (induction s) auto

lemma str_split_free: "l \<in> set (str_split c s) \<Longrightarrow> c \<notin> set l"
proof (induction s arbitrary: l)
  case Nil
  then show ?case by simp
next
  case (Cons x xs)
  have ne: "str_split c xs \<noteq> []" by simp
  then obtain h t where ht: "str_split c xs = h # t" by (cases "str_split c xs") auto
  show ?case
  proof (cases "x = c")
    case True
    with Cons show ?thesis by auto
  next
    case False
    with Cons.prems ht have "l = x # h \<or> l \<in> set t" by auto
    with Cons.IH ht False show ?thesis by auto
  qed
qed

lemma str_split_prefix:
  "c \<notin> set p \<Longrightarrow> str_split c (p @ s) = (p @ hd (str_split c s)) # tl (str_split c s)"
  by (induction p) auto

lemma str_split_no_sep: "c \<notin> set p \<Longrightarrow> str_split c p = [p]"
  using str_split_prefix [of c p "[]"] by simp

lemma str_join_Cons: "ls \<noteq> [] \<Longrightarrow> str_join sep (l # ls) = l @ sep @ str_join sep ls"
  by (cases ls) auto

lemma str_split_join:
  "ls \<noteq> [] \<Longrightarrow> list_all (\<lambda>l. c \<notin> set l) ls \<Longrightarrow> str_split c (str_join [c] ls) = ls"
proof (induction ls)
  case Nil
  then show ?case by simp
next
  case (Cons l ls)
  show ?case
  proof (cases "ls = []")
    case True
    with Cons.prems show ?thesis by (simp add: str_split_no_sep)
  next
    case False
    with Cons show ?thesis by (simp add: str_join_Cons str_split_prefix)
  qed
qed

lemma str_join_split: "str_join [c] (str_split c s) = s"
proof (induction s)
  case Nil
  then show ?case by simp
next
  case (Cons x xs)
  obtain h t where ht: "str_split c xs = h # t" by (cases "str_split c xs") auto
  show ?case
  proof (cases "x = c")
    case True
    with Cons ht show ?thesis by simp
  next
    case False
    with Cons ht show ?thesis by (cases t) auto
  qed
qed

section \<open>The checked second pass never fails\<close>

lemma is_heading_eq: "is_heading line = Inr (heading line)"
  by (auto simp: is_heading_def heading_def getitem_def and_then_def Let_def)

lemma second_pass_step_eq:
  "i < length lines \<Longrightarrow>
   second_pass_step lines i line = Inr (emit (prev_of lines i) line (next_of lines i))"
proof -
  assume i: "i < length lines"
  have p: "(if i > 0 then getitem lines (int i - 1) else Inr []) = Inr (prev_of lines i)"
    using i by (auto simp: getitem_def prev_of_def Let_def nat_diff_distrib')
  have n: "(if int i < int (length lines) - 1 then getitem lines (int i + 1) else Inr [])
           = Inr (next_of lines i)"
    using i by (auto simp: getitem_def next_of_def Let_def nat_add_distrib)
  show ?thesis
    unfolding second_pass_step_def p n is_heading_eq
    by (simp add: and_then_def emit_def)
qed

lemma second_pass_loop_eq:
  "second_pass_loop (pre @ rest) (length pre) rest
   = Inr (insert_blanks (if pre = [] then [] else last pre) rest)"
proof (induction rest arbitrary: pre)
  case Nil
  then show ?case by simp
next
  case (Cons line rest)
  have step: "second_pass_step (pre @ line # rest) (length pre) line
              = Inr (emit (if pre = [] then [] else last pre) line
                       (case rest of [] \<Rightarrow> [] | n # _ \<Rightarrow> n))"
    by (subst second_pass_step_eq)
       (auto simp: prev_of_def next_of_def nth_append last_conv_nth split: list.splits)
  have "second_pass_loop ((pre @ [line]) @ rest) (length (pre @ [line])) rest
        = Inr (insert_blanks line rest)"
    using Cons.IH [of "pre @ [line]"] by simp
  then have rec: "second_pass_loop (pre @ line # rest) (Suc (length pre)) rest
        = Inr (insert_blanks line rest)"
    by simp
  show ?case by (simp add: step rec and_then_def)
qed

lemma second_pass_eq: "second_pass lines = Inr (insert_blanks [] lines)"
  using second_pass_loop_eq [of "[]" lines] by (simp add: second_pass_def)

lemma fix_markdown_complete_eq:
  "fix_markdown_complete content
   = Inr (finish (insert_blanks [] (first_pass (str_split (CHR 0x0A) content))))"
  by (simp add: fix_markdown_complete_def second_pass_eq and_then_def finish_def)

section \<open>Stripping and single items of a pattern\<close>

lemma str_rstrip_decomp: "s = str_rstrip s @ rev (takeWhile isspace (rev s))"
proof -
  have "rev (dropWhile isspace (rev s)) @ rev (takeWhile isspace (rev s))
        = rev (takeWhile isspace (rev s) @ dropWhile isspace (rev s))"
    by (simp only: rev_append)
  also have "\<dots> = s"
    by (simp only: takeWhile_dropWhile_id rev_rev_ident)
  finally show ?thesis by (simp add: str_rstrip_def)
qed

lemma str_rstrip_Nil_iff: "str_rstrip s = [] \<longleftrightarrow> list_all isspace s"
  by (simp add: str_rstrip_def dropWhile_eq_Nil_conv list_all_iff)

lemma hd_str_rstrip: "str_rstrip s \<noteq> [] \<Longrightarrow> hd (str_rstrip s) = hd s"
  using str_rstrip_decomp [of s] by (metis hd_append2)

lemma hd_str_strip:
  "str_strip s \<noteq> [] \<Longrightarrow> \<not> isspace (hd s) \<Longrightarrow> hd (str_strip s) = hd s"
proof -
  assume ne: "str_strip s \<noteq> []" and ns: "\<not> isspace (hd s)"
  have "s \<noteq> []" using ne by (auto simp: str_strip_def str_lstrip_def str_rstrip_def)
  with ns have "dropWhile isspace s = s" by (cases s) auto
  with ne show ?thesis by (simp add: str_strip_def str_lstrip_def hd_str_rstrip)
qed

lemma str_strip_Nil_not: "str_strip s \<noteq> [] \<Longrightarrow> s \<noteq> []"
  by (auto simp: str_strip_def str_lstrip_def str_rstrip_def)

lemma re_match_Once:
  "re_match (Cls P Once # as) s =
     (case s of [] \<Rightarrow> None
      | c # cs \<Rightarrow> if P c then map_option (\<lambda>r. [c] # r) (re_match as cs) else None)"
  by (cases s) (auto split: option.splits)

lemma bare_fence_not_separator:
  assumes "str_strip line = ''```''"
  shows "re_match table_sep_rx line = None"
proof -
  have ne: "line \<noteq> []" using assms str_strip_Nil_not [of line] by auto
  have "hd line \<noteq> CHR ''|''"
  proof
    assume h: "hd line = CHR ''|''"
    then have "\<not> isspace (hd line)" by (simp add: isspace_def)
    with assms have "hd (str_strip line) = hd line" by (intro hd_str_strip) auto
    with assms h show False by simp
  qed
  with ne show ?thesis
    by (cases line) (auto simp: table_sep_rx_def re_match_Once is_char_def)
qed

lemma not_endswith_rstrip_chars: "\<not> endswith (str_rstrip_chars [c] u) [c]"
proof -
  define d where "d = dropWhile (\<lambda>x. x \<in> set [c]) (rev u)"
  have e: "endswith (str_rstrip_chars [c] u) [c] = (take 1 d = [c])"
    unfolding d_def by (simp add: endswith_def startswith_def str_rstrip_chars_def)
  have "take 1 d \<noteq> [c]"
  proof (cases d)
    case Nil
    then show ?thesis by simp
  next
    case (Cons x xs)
    then have "d \<noteq> []" by simp
    then have "\<not> hd d \<in> set [c]" unfolding d_def by (rule hd_dropWhile)
    with Cons show ?thesis by simp
  qed
  with e show ?thesis by simp
qed

section \<open>What a match is made of\<close>

lemma first_some_SomeD: "first_some f xs = Some y \<Longrightarrow> \<exists>x\<in>set xs. f x = Some y"
  by (induction xs) (auto split: option.splits)

lemma re_match_pieces:
  "re_match as s = Some ps \<Longrightarrow> length ps = length as \<and> (\<exists>rest. s = concat ps @ rest)"
proof (induction as arbitrary: s ps)
  case Nil
  then show ?case by simp
next
  case (Cons a as)
  show ?case
  proof (cases a)
    case Eol
    with Cons.prems obtain r where r: "re_match as s = Some r" "ps = [] # r"
      by (auto split: if_splits)
    from Cons.IH [OF r(1)] r(2) show ?thesis by simp
  next
    case (Cls P q)
    with Cons.prems obtain k where
      "map_option (\<lambda>r. take k s # r) (re_match as (drop k s)) = Some ps"
      by (auto dest!: first_some_SomeD)
    then obtain r where r: "re_match as (drop k s) = Some r" "ps = take k s # r"
      by auto
    from Cons.IH [OF r(1)] obtain rest where len: "length r = length as"
      and rest: "drop k s = concat r @ rest" by blast
    have "concat ps @ rest = take k s @ drop k s" using r(2) rest by simp
    then have "s = concat ps @ rest" by simp
    moreover have "length ps = Suc (length as)" using r(2) len by simp
    ultimately show ?thesis by auto
  qed
qed

lemma re_match_length: "re_match as s = Some ps \<Longrightarrow> length ps = length as"
  using re_match_pieces by blast

lemma re_match_set: "re_match as s = Some ps \<Longrightarrow> p \<in> set ps \<Longrightarrow> set p \<subseteq> set s"
proof -
  assume m: "re_match as s = Some ps" and p: "p \<in> set ps"
  from re_match_pieces [OF m] obtain rest where "s = concat ps @ rest" by blast
  then have "set s = (\<Union>x\<in>set ps. set x) \<union> set rest" by (metis set_append set_concat)
  with p show ?thesis by auto
qed

lemma set_str_rstrip: "set (str_rstrip s) \<subseteq> set s"
  by (metis str_rstrip_decomp set_append Un_upper1)

lemma set_str_strip: "set (str_strip s) \<subseteq> set s"
proof -
  have "set (str_strip s) \<subseteq> set (dropWhile isspace s)"
    by (simp add: str_strip_def str_lstrip_def set_str_rstrip)
  also have "\<dots> \<subseteq> set s" by (rule set_dropWhileD [THEN subsetI]) 
  finally show ?thesis .
qed

lemma set_replace_first: "set (replace_first old new s) \<subseteq> set s \<union> set new"
proof (induction s)
  case Nil
  then show ?case by auto
next
  case (Cons c cs)
  have "set (drop (length old) (c # cs)) \<subseteq> set (c # cs)" by (rule set_drop_subset)
  with Cons show ?case by auto
qed

lemma set_str_join: "set (str_join sep ls) \<subseteq> set sep \<union> (\<Union>l\<in>set ls. set l)"
  by (induction sep ls rule: str_join.induct) auto

lemma set_str_split: "l \<in> set (str_split c s) \<Longrightarrow> set l \<subseteq> set s"
proof (induction s arbitrary: l)
  case Nil
  then show ?case by simp
next
  case (Cons x xs)
  obtain h t where ht: "str_split c xs = h # t" by (cases "str_split c xs") auto
  show ?case
  proof (cases "x = c")
    case True
    with Cons.prems have "l = [] \<or> l \<in> set (str_split c xs)" by auto
    with Cons.IH show ?thesis by auto
  next
    case False
    with Cons.prems ht have "l = x # h \<or> l \<in> set t" by auto
    moreover have "set h \<subseteq> set xs" using Cons.IH [of h] ht by simp
    moreover have "l \<in> set t \<Longrightarrow> set l \<subseteq> set xs" using Cons.IH [of l] ht by simp
    ultimately show ?thesis by auto
  qed
qed

section \<open>The loop of \<open>fix_markdown_errors\<close> keeps the lines apart\<close>

lemma set_md026: "set (md026 line) \<subseteq> set line"
proof (cases "re_match heading_punct_rx line")
  case None
  then show ?thesis by (simp add: md026_def)
next
  case (Some ps)
  have len: "length ps = 6"
    using re_match_length [OF Some] by (simp add: heading_punct_rx_def)
  have a: "set (ps ! 4) \<subseteq> set line"
    using re_match_set [OF Some, of "ps ! 4"] len by simp
  have "set (concat (take 3 ps)) \<subseteq> set line"
    using re_match_set [OF Some] by (auto dest: in_set_takeD)
  with a Some show ?thesis by (simp add: md026_def)
qed

lemma set_md007: "set (md007 line) \<subseteq> set line \<union> {CHR '' ''}"
  using set_replace_first [of "''    ''" "''  ''" line] by (auto simp: md007_def)

lemma set_md009: "set (md009 line) \<subseteq> set line"
  using set_str_rstrip [of line] by (auto simp: md009_def)

lemma set_re_sub_from_emphasis:
  "set (re_sub_from emphasis_match k s) \<subseteq> set s \<union> {CHR ''*''}"
proof (induction emphasis_match k s rule: re_sub_from.induct)
  case (1 k)
  then show ?case by simp
next
  case (2 k c cs)
  then show ?case by auto
next
  case (3 c cs)
  show ?case
  proof (cases "re_match emphasis_rx (c # cs)")
    case None
    with 3 show ?thesis by (auto simp: emphasis_match_def)
  next
    case (Some ps)
    have len: "length ps = 5"
      using re_match_length [OF Some] by (simp add: emphasis_rx_def)
    have g: "set (ps ! 2) \<subseteq> set (c # cs)"
      using re_match_set [OF Some, of "ps ! 2"] len by simp
    have em: "emphasis_match (c # cs) = Some (length (concat ps), ''*'' @ ps ! 2 @ ''*'')"
      using Some by (simp add: emphasis_match_def)
    have "set (re_sub_from emphasis_match (length (concat ps) - 1) cs) \<subseteq> set cs \<union> {CHR ''*''}"
      using 3(2) [OF em refl] .
    with g em show ?thesis by auto
  qed
qed

lemma set_md037: "set (md037 line) \<subseteq> set line \<union> {CHR ''*''}"
  using set_re_sub_from_emphasis [of 0 line] by (simp add: md037_def re_sub_def)

lemma set_compact_parts:
  "p \<in> set (compact_parts parts) \<Longrightarrow> \<exists>q\<in>set parts. set p \<subseteq> set q"
proof -
  assume "p \<in> set (compact_parts parts)"
  then have "\<exists>j<length parts. p = parts ! j \<or> p = str_strip (parts ! j)"
    unfolding compact_parts_def by (simp add: image_iff Bex_def) metis
  then obtain j where j: "j < length parts"
    and p: "p = parts ! j \<or> p = str_strip (parts ! j)" by blast
  have "set p \<subseteq> set (parts ! j)" using p set_str_strip [of "parts ! j"] by auto
  with j show ?thesis by (meson nth_mem)
qed

lemma set_md060: "set (md060 line) \<subseteq> set line \<union> {CHR ''|''}"
proof -
  have "set (str_join ''|'' (compact_parts (str_split CHR ''|'' line))) \<subseteq> set line \<union> {CHR ''|''}"
  proof
    fix x assume "x \<in> set (str_join ''|'' (compact_parts (str_split CHR ''|'' line)))"
    with set_str_join [of "''|''" "compact_parts (str_split CHR ''|'' line)"]
    have "x = CHR ''|'' \<or> (\<exists>p\<in>set (compact_parts (str_split CHR ''|'' line)). x \<in> set p)"
      by auto
    then show "x \<in> set line \<union> {CHR ''|''}"
    proof
      assume "x = CHR ''|''" then show ?thesis by simp
    next
      assume "\<exists>p\<in>set (compact_parts (str_split CHR ''|'' line)). x \<in> set p"
      then obtain p where p: "p \<in> set (compact_parts (str_split CHR ''|'' line))" "x \<in> set p"
        by blast
      from set_compact_parts [OF p(1)] obtain q where
        q: "q \<in> set (str_split CHR ''|'' line)" "set p \<subseteq> set q" by blast
      from set_str_split [OF q(1)] q(2) p(2) show ?thesis by auto
    qed
  qed
  then show ?thesis by (auto simp: md060_def)
qed

lemma fix_line_no_newline: "CHR 0x0A \<notin> set line \<Longrightarrow> CHR 0x0A \<notin> set (fix_line line)"
proof -
  assume n: "CHR 0x0A \<notin> set line"
  have 1: "CHR 0x0A \<notin> set (md026 line)" using n set_md026 [of line] by auto
  have 2: "CHR 0x0A \<notin> set (md007 (md026 line))" using 1 set_md007 [of "md026 line"] by auto
  have 3: "CHR 0x0A \<notin> set (md009 (md007 (md026 line)))"
    using 2 set_md009 [of "md007 (md026 line)"] by auto
  have 4: "CHR 0x0A \<notin> set (md037 (md009 (md007 (md026 line))))"
    using 3 set_md037 [of "md009 (md007 (md026 line))"] by auto
  show ?thesis
    using 4 set_md060 [of "md037 (md009 (md007 (md026 line)))"] by (auto simp: fix_line_def)
qed

lemma length_errors_loop: "length (errors_loop b lines) = length lines"
  by (induction lines arbitrary: b) auto

lemma errors_loop_no_newline:
  "list_all (\<lambda>l. CHR 0x0A \<notin> set l) lines \<Longrightarrow>
   list_all (\<lambda>l. CHR 0x0A \<notin> set l) (errors_loop b lines)"
  by (induction lines arbitrary: b) (auto simp: fix_line_no_newline)

lemma str_split_all_free: "list_all (\<lambda>l. c \<notin> set l) (str_split c s)"
  by (simp add: list_all_iff str_split_free)

lemma split_fix_markdown_errors:
  "str_split (CHR 0x0A) (fix_markdown_errors content)
   = errors_loop False (str_split (CHR 0x0A) content)"
proof -
  have "errors_loop False (str_split (CHR 0x0A) content) \<noteq> []"
    using length_errors_loop [of False "str_split (CHR 0x0A) content"] by auto
  then show ?thesis
    unfolding fix_markdown_errors_def
    by (intro str_split_join errors_loop_no_newline str_split_all_free)
qed

lemma errors_loop_in_fence:
  "i < length lines \<Longrightarrow> fence_state b lines i \<or> is_code_fence (lines ! i) \<Longrightarrow>
   errors_loop b lines ! i = lines ! i"
proof (induction lines arbitrary: b i)
  case Nil
  then show ?case by simp
next
  case (Cons l ls)
  show ?case
  proof (cases i)
    case 0
    with Cons.prems show ?thesis by (auto simp: is_code_fence_def)
  next
    case (Suc j)
    with Cons.prems Cons.IH [of j] show ?thesis by (auto simp: is_code_fence_def)
  qed
qed

section \<open>Headings in the second pass\<close>

lemma heading_Cons:
  "heading line = (\<exists>b r. line = CHR ''#'' # b # r \<and> (b = CHR '' '' \<or> b = CHR ''#''))"
proof (cases line)
  case Nil
  then show ?thesis by (simp add: heading_def)
next
  case (Cons a t)
  show ?thesis
  proof (cases t)
    case Nil
    with Cons show ?thesis by (simp add: heading_def)
  next
    case (Cons b r)
    with \<open>line = a # t\<close> show ?thesis by (auto simp: heading_def startswith_def)
  qed
qed

lemma heading_by_run_heading: "heading_by_run line \<Longrightarrow> heading line"
proof -
  assume h: "heading_by_run line"
  then obtain r where l: "line = CHR ''#'' # r"
    by (cases line) (auto simp: heading_by_run_def startswith_def)
  from h l obtain c s where d: "dropWhile (\<lambda>c. c = CHR ''#'') r = c # s"
    and c: "c = CHR '' '' \<or> c = CHR ''#''"
    by (auto simp: heading_by_run_def split: list.splits)
  from d have "r \<noteq> []" by auto
  then obtain b r' where r: "r = b # r'" by (cases r) auto
  have "b = CHR '' '' \<or> b = CHR ''#''"
  proof (cases "b = CHR ''#''")
    case True then show ?thesis by simp
  next
    case False
    with d r have "c = b" by simp
    moreover from d have "c \<noteq> CHR ''#''"
      using hd_dropWhile [of "\<lambda>c. c = CHR ''#''" r] by auto
    ultimately show ?thesis using c by simp
  qed
  with l r show ?thesis unfolding heading_Cons by simp
qed

lemma heading_hd: "heading line \<Longrightarrow> line \<noteq> [] \<and> hd line = CHR ''#''"
  unfolding heading_Cons by auto

lemma re_match_Star_none:
  "s \<noteq> [] \<Longrightarrow> \<not> P (hd s) \<Longrightarrow>
   re_match (Cls P Star # as) s = map_option (\<lambda>r. [] # r) (re_match as s)"
  by (cases s) (auto split: option.splits)

lemma re_match_Plus_none: "s \<noteq> [] \<Longrightarrow> \<not> P (hd s) \<Longrightarrow> re_match (Cls P Plus # as) s = None"
  by (cases s) auto

lemma heading_not_list: "heading line \<Longrightarrow> \<not> is_list line"
proof -
  assume "heading line"
  then obtain r where l: "line = CHR ''#'' # r" using heading_hd [of line] by (cases line) auto
  have sp: "\<not> isspace (hd line)" using l by (simp add: isspace_def)
  have ne: "line \<noteq> []" using l by simp
  have a: "re_match unordered_rx line = None"
    unfolding unordered_rx_def re_match_Star_none [of line isspace, OF ne sp]
    using l by (simp add: re_match_Once one_of_def)
  have dg: "\<not> isdigit (hd line)" using l by (simp add: isdigit_def)
  have b: "re_match ordered_rx line = None"
    unfolding ordered_rx_def re_match_Star_none [of line isspace, OF ne sp]
      re_match_Plus_none [of line isdigit, OF ne dg]
    by simp
  from a b show ?thesis by (simp add: is_list_def)
qed

lemma heading_not_code_fence: "heading line \<Longrightarrow> \<not> is_code_fence line"
proof
  assume h: "heading line" and f: "is_code_fence line"
  from h have l: "line \<noteq> []" "hd line = CHR ''#''" using heading_hd by auto
  from f have tk: "startswith (str_strip line) [CHR 0x60, CHR 0x60, CHR 0x60]"
    unfolding is_code_fence_def .
  then have ne: "str_strip line \<noteq> []" by (auto simp: startswith_def)
  from tk have hd: "hd (str_strip line) = CHR 0x60"
    by (cases "str_strip line") (auto simp: startswith_def)
  have "hd (str_strip line) = hd line"
    using ne l by (intro hd_str_strip) (auto simp: isspace_def)
  with hd l show False by simp
qed

lemma insert_blanks_by_index:
  "insert_blanks (prev_of (pre @ rest) (length pre)) rest
   = concat (map (\<lambda>j. emit (prev_of (pre @ rest) j) ((pre @ rest) ! j) (next_of (pre @ rest) j))
       [length pre..<length (pre @ rest)])"
proof (induction rest arbitrary: pre)
  case Nil
  then show ?case by simp
next
  case (Cons l ls)
  have nx: "(case ls of [] \<Rightarrow> [] | n # _ \<Rightarrow> n) = next_of (pre @ l # ls) (length pre)"
    by (auto simp: next_of_def nth_append split: list.splits)
  have pv: "prev_of ((pre @ [l]) @ ls) (length (pre @ [l])) = l"
    by (simp add: prev_of_def nth_append)
  have up: "[length pre..<length (pre @ l # ls)]
            = length pre # [length (pre @ [l])..<length ((pre @ [l]) @ ls)]"
    by (simp add: upt_conv_Cons del: upt_Suc)
  show ?case
    unfolding up using Cons.IH [of "pre @ [l]"] unfolding pv
    by (simp add: nx)
qed

lemma second_pass_by_index:
  "second_pass lines
   = Inr (concat (map (\<lambda>i. emit (prev_of lines i) (lines ! i) (next_of lines i))
            [0..<length lines]))"
  using insert_blanks_by_index [of "[]" lines] by (simp add: second_pass_eq prev_of_def)

lemma is_blank_Nil: "is_blank []"
  by (simp add: is_blank_def str_strip_def str_lstrip_def str_rstrip_def)

lemma emit_heading:
  assumes "heading line"
  shows "emit p line n =
           (if \<not> is_blank p \<and> \<not> heading p then [[]] else []) @ [line]
           @ (if \<not> is_blank n \<and> \<not> heading n then [[]] else [])"
proof -
  have l: "\<not> is_list line" and f: "\<not> is_code_fence line"
    using assms heading_not_list heading_not_code_fence by auto
  have p: "(str_strip p \<noteq> []) = (\<not> is_blank p)" and n: "(str_strip n \<noteq> []) = (\<not> is_blank n)"
    by (simp_all add: is_blank_def)
  show ?thesis unfolding emit_def p n using assms l f by simp
qed

lemma emit_plain:
  "\<not> heading line \<Longrightarrow> \<not> is_list line \<Longrightarrow> \<not> is_code_fence line \<Longrightarrow> emit p line n = [line]"
  unfolding emit_def by simp

lemma emit_at:
  assumes "i < length lines"
  shows "emit (prev_of lines i) (lines ! i) (next_of lines i) =
     (if heading (lines ! i) then
        (if 0 < i \<and> \<not> is_blank (lines ! (i - 1)) \<and> \<not> heading (lines ! (i - 1))
         then [[]] else [])
        @ [lines ! i]
        @ (if i + 1 < length lines \<and> \<not> is_blank (lines ! (i + 1))
              \<and> \<not> heading (lines ! (i + 1))
           then [[]] else [])
      else
        (if is_list (lines ! i) \<and> 0 < i \<and> \<not> is_blank (lines ! (i - 1))
            \<and> \<not> is_list (lines ! (i - 1)) \<and> \<not> heading (lines ! (i - 1))
            \<and> \<not> is_code_fence (lines ! (i - 1))
         then [[]] else [])
        @ (if is_code_fence (lines ! i) \<and> 0 < i \<and> \<not> is_blank (lines ! (i - 1))
              \<and> \<not> heading (lines ! (i - 1))
           then [[]] else [])
        @ [lines ! i]
        @ (if is_list (lines ! i) \<and> i + 1 < length lines \<and> \<not> is_blank (lines ! (i + 1))
              \<and> \<not> is_list (lines ! (i + 1)) \<and> \<not> heading (lines ! (i + 1))
           then [[]] else [])
        @ (if is_code_fence (lines ! i) \<and> i + 1 < length lines
              \<and> \<not> is_blank (lines ! (i + 1)) \<and> \<not> heading (lines ! (i + 1))
           then [[]] else []))"
proof (cases "heading (lines ! i)")
  case True
  show ?thesis
    unfolding emit_heading [OF True] prev_of_def next_of_def
    using True is_blank_Nil by simp
next
  case False
  have p: "\<And>s. (str_strip s \<noteq> []) = (\<not> is_blank s)" by (simp add: is_blank_def)
  have e: "\<And>p n. emit p (lines ! i) n =
        (if is_list (lines ! i) \<and> \<not> is_blank p \<and> \<not> is_list p \<and> \<not> heading p
            \<and> \<not> is_code_fence p
         then [[]] else [])
        @ (if is_code_fence (lines ! i) \<and> \<not> is_blank p \<and> \<not> heading p then [[]] else [])
        @ [lines ! i]
        @ (if is_list (lines ! i) \<and> \<not> is_blank n \<and> \<not> is_list n \<and> \<not> heading n
           then [[]] else [])
        @ (if is_code_fence (lines ! i) \<and> \<not> is_blank n \<and> \<not> heading n then [[]] else [])"
    unfolding emit_def p using False by simp
  have pv: "prev_of lines i = (if 0 < i then lines ! (i - 1) else [])" by (simp add: prev_of_def)
  have nx: "next_of lines i = (if i + 1 < length lines then lines ! (i + 1) else [])"
    by (simp add: next_of_def)
  show ?thesis
  proof (cases "0 < i")
    case True
    note i = this
    show ?thesis
    proof (cases "i + 1 < length lines")
      case True
      with i False show ?thesis unfolding pv nx e by simp
    next
      case n: False
      with i False show ?thesis unfolding pv nx e using is_blank_Nil by simp
    qed
  next
    case i: False
    show ?thesis
    proof (cases "i + 1 < length lines")
      case True
      with i False show ?thesis unfolding pv nx e using is_blank_Nil by simp
    next
      case n: False
      with i False show ?thesis unfolding pv nx e using is_blank_Nil by simp
    qed
  qed
qed

section \<open>Lines that no rule matches\<close>




section \<open>Greedy and lazy repetition\<close>

lemma set_desc: "set (desc n) = {1..n}"
  by (induction n) auto

lemma first_some_None_iff: "first_some f xs = None \<longleftrightarrow> (\<forall>x\<in>set xs. f x = None)"
  by (induction xs) (auto split: option.splits)

lemma first_some_append:
  "first_some f (xs @ ys) = (case first_some f xs of Some y \<Rightarrow> Some y | None \<Rightarrow> first_some f ys)"
  by (induction xs) (auto split: option.splits)

text \<open>Greedy: the longest count that succeeds wins.\<close>

lemma first_some_desc:
  "f k = Some y \<Longrightarrow> 1 \<le> k \<Longrightarrow> k \<le> n \<Longrightarrow> (\<And>j. k < j \<Longrightarrow> j \<le> n \<Longrightarrow> f j = None) \<Longrightarrow>
   first_some f (desc n) = Some y"
proof (induction n)
  case 0
  then show ?case by simp
next
  case (Suc n)
  show ?case
  proof (cases "k = Suc n")
    case True
    with Suc.prems(1) show ?thesis by simp
  next
    case False
    with Suc.prems have kn: "k \<le> n" by simp
    have "f (Suc n) = None" using Suc.prems(4) [of "Suc n"] kn by simp
    moreover have "first_some f (desc n) = Some y"
      using Suc.IH Suc.prems(1,2,4) kn by simp
    ultimately show ?thesis by simp
  qed
qed

text \<open>Lazy: the shortest count that succeeds wins.\<close>

lemma first_some_rev_desc:
  "f k = Some y \<Longrightarrow> 1 \<le> k \<Longrightarrow> k \<le> n \<Longrightarrow> (\<And>j. 1 \<le> j \<Longrightarrow> j < k \<Longrightarrow> f j = None) \<Longrightarrow>
   first_some f (rev (desc n)) = Some y"
proof (induction n)
  case 0
  then show ?case by simp
next
  case (Suc n)
  show ?case
  proof (cases "k = Suc n")
    case True
    have "first_some f (rev (desc n)) = None"
      unfolding first_some_None_iff using Suc.prems(4) True by (auto simp: set_desc)
    with Suc.prems(1) True show ?thesis by (simp add: first_some_append)
  next
    case False
    with Suc.prems have kn: "k \<le> n" by simp
    have "first_some f (rev (desc n)) = Some y"
      using Suc.IH Suc.prems(1,2,4) kn by simp
    then show ?thesis by (simp add: first_some_append)
  qed
qed

lemma re_match_Plus_all:
  assumes "takeWhile P s = p" and "p \<noteq> []" and "re_match as (drop (length p) s) = Some r"
  shows "re_match (Cls P Plus # as) s = Some (p # r)"
proof -
  have pre: "take (length p) s = p"
    using assms(1) by (metis append_eq_conv_conj takeWhile_dropWhile_id)
  let ?f = "\<lambda>k. map_option (\<lambda>r. take k s # r) (re_match as (drop k s))"
  have len: "1 \<le> length p" using assms(2) by (cases p) auto
  have "first_some ?f (desc (length p)) = Some (p # r)"
    by (rule first_some_desc [where k = "length p"]) (use assms pre len in auto)
  then show ?thesis using assms(1) by simp
qed

lemma re_match_Star_all:
  assumes "takeWhile P s = p" and "re_match as (drop (length p) s) = Some r"
  shows "re_match (Cls P Star # as) s = Some (p # r)"
proof (cases "p = []")
  case True
  with assms show ?thesis by simp
next
  case False
  have pre: "take (length p) s = p"
    using assms(1) by (metis append_eq_conv_conj takeWhile_dropWhile_id)
  let ?f = "\<lambda>k. map_option (\<lambda>r. take k s # r) (re_match as (drop k s))"
  have len: "1 \<le> length p" using False by (cases p) auto
  have "first_some ?f (desc (length p)) = Some (p # r)"
    by (rule first_some_desc [where k = "length p"]) (use assms pre len in auto)
  then show ?thesis using assms(1) by (simp add: first_some_append)
qed

lemma re_match_LazyPlus_first:
  assumes "list_all P p" and "p \<noteq> []" and "re_match as s = Some r"
    and "\<And>j. 1 \<le> j \<Longrightarrow> j < length p \<Longrightarrow> re_match as (drop j p @ s) = None"
  shows "re_match (Cls P LazyPlus # as) (p @ s) = Some (p # r)"
proof -
  have tw: "takeWhile P (p @ s) = p @ takeWhile P s"
    using assms(1) by (simp add: list_all_iff takeWhile_append2)
  let ?f = "\<lambda>k. map_option (\<lambda>r. take k (p @ s) # r) (re_match as (drop k (p @ s)))"
  have "first_some ?f (rev (desc (length (takeWhile P (p @ s))))) = Some (p # r)"
  proof (rule first_some_rev_desc [where k = "length p"])
    show "?f (length p) = Some (p # r)" using assms(3) by simp
    show "1 \<le> length p" using assms(2) by (cases p) auto
    show "length p \<le> length (takeWhile P (p @ s))" by (simp add: tw)
    fix j assume "1 \<le> j" "j < length p"
    then show "?f j = None" using assms(4) by simp
  qed
  then show ?thesis by simp
qed

lemma re_match_Plus_None:
  assumes "\<And>k. 1 \<le> k \<Longrightarrow> k \<le> length (takeWhile P s) \<Longrightarrow> re_match as (drop k s) = None"
  shows "re_match (Cls P Plus # as) s = None"
  using assms by (simp add: first_some_None_iff set_desc)

lemma re_match_Eol: "re_match [Eol] s = (if s = [] \<or> s = [CHR 0x0A] then Some [[]] else None)"
  by simp

section \<open>The heading pattern\<close>

lemma take_le_takeWhile: "k \<le> length (takeWhile P u) \<Longrightarrow> list_all P (take k u)"
proof -
  assume k: "k \<le> length (takeWhile P u)"
  have "take k u = take k (takeWhile P u @ dropWhile P u)" by simp
  also have "\<dots> = take k (takeWhile P u)" using k by (simp del: takeWhile_dropWhile_id)
  finally have "set (take k u) \<subseteq> set (takeWhile P u)" by (metis set_take_subset)
  then show ?thesis by (auto simp: list_all_iff dest: set_takeWhileD)
qed

lemma in_drop_le_takeWhile:
  assumes "c \<in> set u" and "\<not> P c" and "k \<le> length (takeWhile P u)"
  shows "c \<in> set (drop k u)"
proof -
  have "list_all P (take k u)" using assms(3) by (rule take_le_takeWhile)
  with assms(2) have "c \<notin> set (take k u)" by (auto simp: list_all_iff)
  moreover have "set u = set (take k u) \<union> set (drop k u)"
    by (metis append_take_drop_id set_append)
  ultimately show ?thesis using assms(1) by auto
qed

lemma isspace_newline: "isspace (CHR 0x0A)"
  by (simp add: isspace_def)

lemma star_eol_None:
  assumes "c \<in> set u" and "\<not> isspace c"
  shows "re_match [Cls isspace Star, Eol] u = None"
proof -
  let ?f = "\<lambda>k. map_option (\<lambda>r. take k u # r) (re_match [Eol] (drop k u))"
  have "first_some ?f (cands Star (length (takeWhile isspace u))) = None"
    unfolding first_some_None_iff
  proof
    fix k assume "k \<in> set (cands Star (length (takeWhile isspace u)))"
    then have k: "k \<le> length (takeWhile isspace u)" by (auto simp: set_desc)
    have c: "c \<in> set (drop k u)" using assms k by (rule in_drop_le_takeWhile)
    then have "drop k u \<noteq> []" by auto
    moreover have "drop k u \<noteq> [CHR 0x0A]" using c assms(2) isspace_newline by auto
    ultimately have "re_match [Eol] (drop k u) = None" by simp
    then show "?f k = None" by (simp only: option.map)
  qed
  then show ?thesis by (subst re_match.simps(3))
qed

lemma punct_not_space: "one_of ''.,;:'' c \<Longrightarrow> \<not> isspace c"
  by (auto simp: one_of_def isspace_def)

lemma punct_tail_None:
  assumes "d \<noteq> []" and "\<not> one_of ''.,;:'' (last d)" and "ps \<noteq> []"
    and "list_all (one_of ''.,;:'') ps"
  shows "re_match [Cls (one_of ''.,;:'') Plus, Cls isspace Star, Eol] (d @ ps @ tw) = None"
proof (rule re_match_Plus_None)
  fix k assume "1 \<le> k" and k: "k \<le> length (takeWhile (one_of ''.,;:'') (d @ ps @ tw))"
  have "last d \<in> set d" using assms(1) by simp
  then have "takeWhile (one_of ''.,;:'') (d @ ps @ tw) = takeWhile (one_of ''.,;:'') d"
    using assms(2) by (rule takeWhile_append1)
  with k have "k \<le> length (takeWhile (one_of ''.,;:'') d)" by simp
  also have "\<dots> \<le> length d" by (rule length_takeWhile_le)
  finally have "drop k (d @ ps @ tw) = drop k d @ ps @ tw" by simp
  then have "hd ps \<in> set (drop k (d @ ps @ tw))" using assms(3) by simp
  moreover have "\<not> isspace (hd ps)"
    using assms(3,4) by (cases ps) (auto dest: punct_not_space)
  ultimately show "re_match [Cls isspace Star, Eol] (drop k (d @ ps @ tw)) = None"
    by (rule star_eol_None)
qed

lemma punct_tail_match:
  assumes "ps \<noteq> []" and "list_all (one_of ''.,;:'') ps" and "list_all isspace tw"
  shows "re_match [Cls (one_of ''.,;:'') Plus, Cls isspace Star, Eol] (ps @ tw) = Some [ps, tw, []]"
proof -
  have t1: "takeWhile (one_of ''.,;:'') (ps @ tw) = ps"
  proof -
    have "takeWhile (one_of ''.,;:'') tw = []"
      using assms(3) by (cases tw) (auto dest: punct_not_space)
    then show ?thesis using assms(2) by (simp add: list_all_iff takeWhile_append2)
  qed
  have t2: "takeWhile isspace tw = tw" using assms(3) by (simp add: list_all_iff)
  have e: "re_match [Eol] (drop (length tw) tw) = Some [[]]" by simp
  have s: "re_match [Cls isspace Star, Eol] tw = Some [tw, []]"
    by (rule re_match_Star_all [OF t2 e])
  have dp: "drop (length ps) (ps @ tw) = tw" by simp
  have s': "re_match [Cls isspace Star, Eol] (drop (length ps) (ps @ tw)) = Some [tw, []]"
    unfolding dp by (rule s)
  show ?thesis by (rule re_match_Plus_all [OF t1 assms(1) s'])
qed

lemma heading_punct_match:
  assumes "0 < n" and "ws \<noteq> []" and "list_all isspace ws"
    and "body \<noteq> []" and "\<not> isspace (hd body)" and "CHR 0x0A \<notin> set body"
    and "\<not> one_of ''.,;:'' (last body)"
    and "ps \<noteq> []" and "list_all (one_of ''.,;:'') ps" and "list_all isspace tw"
  shows "re_match heading_punct_rx (replicate n CHR ''#'' @ ws @ body @ ps @ tw)
         = Some [replicate n CHR ''#'', ws, body, ps, tw, []]"
proof -
  let ?tail = "[Cls (one_of ''.,;:'') Plus, Cls isspace Star, Eol]"
  have m3: "re_match ?tail (ps @ tw) = Some [ps, tw, []]"
    using assms(8,9,10) by (rule punct_tail_match)
  have m2: "re_match (Cls any_char LazyPlus # ?tail) (body @ ps @ tw) = Some [body, ps, tw, []]"
  proof (rule re_match_LazyPlus_first)
    show "list_all any_char body" using assms(6) by (auto simp: list_all_iff any_char_def)
    show "body \<noteq> []" by fact
    show "re_match ?tail (ps @ tw) = Some [ps, tw, []]" by fact
    fix j assume "1 \<le> j" "j < length body"
    then have "drop j body \<noteq> []" and "last (drop j body) = last body" by auto
    then show "re_match ?tail (drop j body @ ps @ tw) = None"
      using assms(7,8,9) by (intro punct_tail_None) auto
  qed
  have t1: "takeWhile isspace (ws @ body @ ps @ tw) = ws"
  proof -
    have "takeWhile isspace (body @ ps @ tw) = []"
      using assms(4,5) by (cases body) auto
    then show ?thesis using assms(3) by (simp add: list_all_iff takeWhile_append2)
  qed
  have d1: "drop (length ws) (ws @ body @ ps @ tw) = body @ ps @ tw" by simp
  have m1: "re_match (Cls isspace Plus # Cls any_char LazyPlus # ?tail) (ws @ body @ ps @ tw)
            = Some [ws, body, ps, tw, []]"
    by (rule re_match_Plus_all [OF t1 assms(2)]) (unfold d1, rule m2)
  have t0: "takeWhile (is_char CHR ''#'') (replicate n CHR ''#'' @ ws @ body @ ps @ tw)
            = replicate n CHR ''#''"
  proof -
    have "\<not> is_char CHR ''#'' (hd ws)"
      using assms(2,3) by (cases ws) (auto simp: is_char_def isspace_def)
    then have e: "takeWhile (is_char CHR ''#'') (ws @ body @ ps @ tw) = []"
      using assms(2) by (cases ws) auto
    have "takeWhile (is_char CHR ''#'') (replicate n CHR ''#'' @ ws @ body @ ps @ tw)
          = replicate n CHR ''#'' @ takeWhile (is_char CHR ''#'') (ws @ body @ ps @ tw)"
      by (rule takeWhile_append2) (simp add: is_char_def)
    with e show ?thesis by simp
  qed
  have ne: "replicate n CHR ''#'' \<noteq> []" using assms(1) by simp
  have d0: "drop (length (replicate n CHR ''#'')) (replicate n CHR ''#'' @ ws @ body @ ps @ tw)
            = ws @ body @ ps @ tw" by simp
  show ?thesis
    unfolding heading_punct_rx_def
    by (rule re_match_Plus_all [OF t0 ne]) (unfold d0, rule m1)
qed

lemma set_cands: "k \<in> set (cands q n) \<Longrightarrow> k \<le> n \<and> (q \<noteq> Star \<longrightarrow> 1 \<le> k)"
  by (cases q) (auto simp: set_desc split: if_splits)

lemma re_match_Cls_SomeD:
  assumes "re_match (Cls P q # as) s = Some ps"
  shows "\<exists>k r. ps = take k s # r \<and> re_match as (drop k s) = Some r \<and> list_all P (take k s)
           \<and> (q \<noteq> Star \<longrightarrow> take k s \<noteq> [])"
proof -
  from assms obtain k where k: "k \<in> set (cands q (length (takeWhile P s)))"
    and m: "map_option (\<lambda>r. take k s # r) (re_match as (drop k s)) = Some ps"
    by (auto dest!: first_some_SomeD)
  from m obtain r where r: "re_match as (drop k s) = Some r" "ps = take k s # r" by auto
  from set_cands [OF k] have le: "k \<le> length (takeWhile P s)" and pos: "q \<noteq> Star \<longrightarrow> 1 \<le> k"
    by auto
  have all: "list_all P (take k s)" using le by (rule take_le_takeWhile)
  have "q \<noteq> Star \<longrightarrow> take k s \<noteq> []"
  proof
    assume "q \<noteq> Star"
    with pos have "1 \<le> k" by simp
    moreover have "k \<le> length s" using le length_takeWhile_le [of P s] by simp
    ultimately show "take k s \<noteq> []" by auto
  qed
  with r all show ?thesis by blast
qed

lemma str_rstrip_append_space:
  assumes "x \<noteq> []" and "\<not> isspace (last x)" and "list_all isspace w"
  shows "str_rstrip (x @ w) = x"
proof -
  have "dropWhile isspace (rev w @ rev x) = dropWhile isspace (rev x)"
    using assms(3) by (intro dropWhile_append2) (simp add: list_all_iff)
  also have "\<dots> = rev x"
    using assms(1,2) by (cases "rev x") (auto simp: last_rev [symmetric] simp del: last_rev)
  finally show ?thesis by (simp add: str_rstrip_def)
qed

lemma heading_punct_match_ends_in_punct:
  assumes "re_match heading_punct_rx line = Some pieces"
  shows "str_rstrip line \<noteq> [] \<and> one_of ''.,;:'' (last (str_rstrip line))"
proof -
  let ?t4 = "[Cls isspace Star, Eol]"
  let ?t3 = "Cls (one_of ''.,;:'') Plus # ?t4"
  let ?t2 = "Cls any_char LazyPlus # ?t3"
  let ?t1 = "Cls isspace Plus # ?t2"
  from assms have "re_match (Cls (is_char CHR ''#'') Plus # ?t1) line = Some pieces"
    by (simp only: heading_punct_rx_def)
  from re_match_Cls_SomeD [OF this] obtain k0 r0 where
    0: "re_match ?t1 (drop k0 line) = Some r0" by blast
  from re_match_Cls_SomeD [OF 0] obtain k1 r1 where
    1: "re_match ?t2 (drop k1 (drop k0 line)) = Some r1" by blast
  from re_match_Cls_SomeD [OF 1] obtain k2 r2 where
    2: "re_match ?t3 (drop k2 (drop k1 (drop k0 line))) = Some r2" by blast
  define u where "u = drop k2 (drop k1 (drop k0 line))"
  from re_match_Cls_SomeD [OF 2] obtain k3 r3 where
    3: "re_match ?t4 (drop k3 u) = Some r3" and p3: "list_all (one_of ''.,;:'') (take k3 u)"
    and n3: "take k3 u \<noteq> []" unfolding u_def by blast
  from re_match_Cls_SomeD [OF 3] obtain k4 r4 where
    4: "re_match [Eol] (drop k4 (drop k3 u)) = Some r4" and p4: "list_all isspace (take k4 (drop k3 u))"
    by blast
  from 4 have e: "drop k4 (drop k3 u) = [] \<or> drop k4 (drop k3 u) = [CHR 0x0A]"
    by (auto split: if_splits)
  define x where "x = take (k0 + k1 + k2) line @ take k3 u"
  define w where "w = take k4 (drop k3 u) @ drop k4 (drop k3 u)"
  have w: "list_all isspace w"
    using p4 e unfolding w_def by (auto simp: isspace_newline)
  have "line = take (k0 + k1 + k2) line @ drop (k0 + k1 + k2) line" by simp
  also have "drop (k0 + k1 + k2) line = u" by (simp add: u_def add.commute add.left_commute)
  also have "u = take k3 u @ drop k3 u" by simp
  also have "drop k3 u = w" unfolding w_def by (rule append_take_drop_id [symmetric])
  finally have line: "line = x @ w" by (simp add: x_def)
  have xne: "x \<noteq> []" using n3 by (simp add: x_def)
  have lx: "last x = last (take k3 u)" using n3 by (simp add: x_def)
  have pl: "one_of ''.,;:'' (last x)"
    unfolding lx using p3 n3 by (metis last_in_set list_all_iff)
  then have "\<not> isspace (last x)" by (rule punct_not_space)
  with xne w have "str_rstrip line = x" unfolding line by (intro str_rstrip_append_space)
  with xne pl show ?thesis by simp
qed

lemma md026_no_trailing_punct:
  "str_rstrip line = [] \<or> \<not> one_of ''.,;:'' (last (str_rstrip line)) \<Longrightarrow> md026 line = line"
  using heading_punct_match_ends_in_punct [of line]
  by (cases "re_match heading_punct_rx line") (auto simp: md026_def)

lemma md026_strips:
  assumes "0 < n" and "ws \<noteq> []" and "list_all isspace ws"
    and "body \<noteq> []" and "\<not> isspace (hd body)" and "CHR 0x0A \<notin> set body"
    and "\<not> one_of ''.,;:'' (last body)"
    and "ps \<noteq> []" and "list_all (one_of ''.,;:'') ps" and "list_all isspace tw"
  shows "md026 (replicate n CHR ''#'' @ ws @ body @ ps @ tw) = replicate n CHR ''#'' @ ws @ body @ tw"
proof -
  have "startswith (replicate n CHR ''#'' @ ws @ body @ ps @ tw) ''#''"
    using assms(1) by (cases n) (auto simp: startswith_def)
  then show ?thesis
    unfolding md026_def heading_punct_match [OF assms] by simp
qed

section \<open>The emphasis pattern\<close>

lemma length_takeWhile_less:
  assumes "d \<noteq> []" and "\<not> P (last d)"
  shows "length (takeWhile P d) < length d"
proof (rule ccontr)
  assume "\<not> length (takeWhile P d) < length d"
  then have "length (takeWhile P d) = length d"
    using length_takeWhile_le [of P d] by simp
  then have "takeWhile P d = d" by (metis takeWhile_dropWhile_id append_eq_conv_conj drop_all order_refl append_Nil2)
  then have "\<forall>x\<in>set d. P x" by (metis set_takeWhileD)
  with assms show False by auto
qed

lemma re_match_Once_Cons:
  "P c \<Longrightarrow> re_match (Cls P Once # as) (c # cs) = map_option (\<lambda>r. [c] # r) (re_match as cs)"
  by (subst re_match_Once) simp

lemma re_match_Once_Cons_None: "\<not> P c \<Longrightarrow> re_match (Cls P Once # as) (c # cs) = None"
  by (subst re_match_Once) simp

lemma emphasis_tail_None:
  assumes "d \<noteq> []" and "CHR ''*'' \<notin> set d" and "\<not> isspace (last d)"
  shows "re_match [Cls isspace Plus, Cls (is_char CHR ''*'') Once] (d @ rest) = None"
proof (rule re_match_Plus_None)
  fix k assume "1 \<le> k" and k: "k \<le> length (takeWhile isspace (d @ rest))"
  have "last d \<in> set d" using assms(1) by simp
  then have "takeWhile isspace (d @ rest) = takeWhile isspace d"
    using assms(3) by (rule takeWhile_append1)
  with k have "k \<le> length (takeWhile isspace d)" by simp
  also have "\<dots> < length d" using assms(1,3) by (rule length_takeWhile_less)
  finally have kd: "k < length d" .
  then have dr: "drop k (d @ rest) = drop k d @ rest" by simp
  from kd obtain c cs where c: "drop k d = c # cs" by (cases "drop k d") auto
  then have "c \<in> set d" by (metis in_set_dropD list.set_intros(1))
  with assms(2) have np: "\<not> is_char CHR ''*'' c" by (auto simp: is_char_def)
  show "re_match [Cls (is_char CHR ''*'') Once] (drop k (d @ rest)) = None"
    unfolding dr c append_Cons by (rule re_match_Once_Cons_None [where P = "is_char CHR ''*''" and c = c, OF np])
qed

lemma emphasis_tail_match:
  assumes "ws \<noteq> []" and "list_all isspace ws"
  shows "re_match [Cls isspace Plus, Cls (is_char CHR ''*'') Once] (ws @ CHR ''*'' # post)
         = Some [ws, ''*'']"
proof -
  have "takeWhile isspace (ws @ CHR ''*'' # post) = ws @ takeWhile isspace (CHR ''*'' # post)"
    using assms(2) by (intro takeWhile_append2) (simp add: list_all_iff)
  then have t: "takeWhile isspace (ws @ CHR ''*'' # post) = ws" by (simp add: isspace_def)
  have d: "drop (length ws) (ws @ CHR ''*'' # post) = CHR ''*'' # post" by simp
  have o: "re_match [Cls (is_char CHR ''*'') Once] (CHR ''*'' # post) = Some [''*'']"
    by (subst re_match_Once_Cons) (simp_all add: is_char_def)
  show ?thesis by (rule re_match_Plus_all [OF t assms(1)]) (unfold d, rule o)
qed

lemma emphasis_rx_match:
  assumes "ws1 \<noteq> []" and "list_all isspace ws1"
    and "t \<noteq> []" and "CHR ''*'' \<notin> set t" and "\<not> isspace (hd t)" and "\<not> isspace (last t)"
    and "ws2 \<noteq> []" and "list_all isspace ws2"
  shows "re_match emphasis_rx (CHR ''*'' # ws1 @ t @ ws2 @ CHR ''*'' # post)
         = Some [''*'', ws1, t, ws2, ''*'']"
proof -
  let ?tail = "[Cls isspace Plus, Cls (is_char CHR ''*'') Once]"
  have m3: "re_match ?tail (ws2 @ CHR ''*'' # post) = Some [ws2, ''*'']"
    using assms(7,8) by (rule emphasis_tail_match)
  have m2: "re_match (Cls (none_of ''*'') LazyPlus # ?tail) (t @ ws2 @ CHR ''*'' # post)
            = Some [t, ws2, ''*'']"
  proof (rule re_match_LazyPlus_first)
    show "list_all (none_of ''*'') t" using assms(4) by (auto simp: list_all_iff none_of_def)
    show "t \<noteq> []" by fact
    show "re_match ?tail (ws2 @ CHR ''*'' # post) = Some [ws2, ''*'']" by fact
    fix j assume "1 \<le> j" "j < length t"
    then have "drop j t \<noteq> []" and "last (drop j t) = last t" by auto
    moreover have "CHR ''*'' \<notin> set (drop j t)" using assms(4) by (auto dest: in_set_dropD)
    ultimately show "re_match ?tail (drop j t @ ws2 @ CHR ''*'' # post) = None"
      using assms(6) by (intro emphasis_tail_None) auto
  qed
  have t1: "takeWhile isspace (ws1 @ t @ ws2 @ CHR ''*'' # post) = ws1"
  proof -
    have e: "takeWhile isspace (t @ ws2 @ CHR ''*'' # post) = []"
      using assms(3,5) by (cases t) auto
    have "takeWhile isspace (ws1 @ t @ ws2 @ CHR ''*'' # post)
          = ws1 @ takeWhile isspace (t @ ws2 @ CHR ''*'' # post)"
      using assms(2) by (intro takeWhile_append2) (simp add: list_all_iff)
    with e show ?thesis by simp
  qed
  have d1: "drop (length ws1) (ws1 @ t @ ws2 @ CHR ''*'' # post) = t @ ws2 @ CHR ''*'' # post"
    by simp
  have m1: "re_match (Cls isspace Plus # Cls (none_of ''*'') LazyPlus # ?tail)
              (ws1 @ t @ ws2 @ CHR ''*'' # post) = Some [ws1, t, ws2, ''*'']"
    by (rule re_match_Plus_all [OF t1 assms(1)]) (unfold d1, rule m2)
  have o: "re_match emphasis_rx (CHR ''*'' # ws1 @ t @ ws2 @ CHR ''*'' # post)
           = map_option (\<lambda>r. ''*'' # r)
               (re_match (Cls isspace Plus # Cls (none_of ''*'') LazyPlus # ?tail)
                  (ws1 @ t @ ws2 @ CHR ''*'' # post))"
    unfolding emphasis_rx_def by (rule re_match_Once_Cons) (simp add: is_char_def)
  show ?thesis unfolding o m1 by simp
qed

lemma re_sub_from_skip: "re_sub_from m (length xs) (xs @ ys) = re_sub_from m 0 ys"
  by (induction xs) auto

lemma emphasis_match_not_star: "c \<noteq> CHR ''*'' \<Longrightarrow> emphasis_match (c # cs) = None"
proof -
  assume "c \<noteq> CHR ''*''"
  then have np: "\<not> is_char CHR ''*'' c" by (simp add: is_char_def)
  have "re_match emphasis_rx (c # cs) = None"
    unfolding emphasis_rx_def by (rule re_match_Once_Cons_None [where P = "is_char CHR ''*''" and c = c, OF np])
  then show ?thesis by (simp add: emphasis_match_def)
qed

lemma re_sub_from_emphasis_prefix:
  "CHR ''*'' \<notin> set pre \<Longrightarrow>
   re_sub_from emphasis_match 0 (pre @ s) = pre @ re_sub_from emphasis_match 0 s"
  by (induction pre) (auto simp: emphasis_match_not_star)

section \<open>The second pass returns a settled list\<close>

lemma emit_split: "emit p l n = blanks_before p l @ [l] @ blanks_after l n"
  by (simp add: emit_def blanks_before_def blanks_after_def)

lemma blanks_before_blank: "set (blanks_before p l) \<subseteq> {[]}"
  by (auto simp: blanks_before_def)

lemma blanks_after_blank: "set (blanks_after l n) \<subseteq> {[]}"
  by (auto simp: blanks_after_def)

lemma is_list_Nil: "\<not> is_list []"
  by (simp add: is_list_def unordered_rx_def ordered_rx_def)

lemma heading_Nil: "\<not> heading []"
  by (simp add: heading_def)

lemma is_code_fence_Nil: "\<not> is_code_fence []"
  by (simp add: is_code_fence_def str_strip_def str_lstrip_def str_rstrip_def startswith_def)

lemma first_pass_line_Nil: "first_pass_line [] = []"
  by (simp add: first_pass_line_def table_sep_rx_def str_strip_def str_lstrip_def str_rstrip_def)

lemma settled_Nil_right: "settled a []"
  by (simp add: settled_def blanks_before_def blanks_after_def heading_Nil is_list_Nil
      is_code_fence_Nil is_blank_Nil first_pass_line_Nil)

lemma settled_Nil_left: "first_pass_line b = b \<Longrightarrow> settled [] b"
  by (simp add: settled_def blanks_before_def blanks_after_def heading_Nil is_list_Nil
      is_code_fence_Nil is_blank_Nil)

lemma chain_append: "chain q (xs @ ys) = (chain q xs \<and> chain (last (q # xs)) ys)"
  by (induction xs arbitrary: q) auto

lemma chain_blanks: "set bs \<subseteq> {[]} \<Longrightarrow> chain q bs"
  by (induction bs arbitrary: q) (auto simp: settled_Nil_right)

lemma last_blanks: "set bs \<subseteq> {[]} \<Longrightarrow> bs \<noteq> [] \<Longrightarrow> last (q # bs) = []"
  by (induction bs arbitrary: q) auto

lemma insert_blanks_Cons:
  "insert_blanks p (l # ls) = emit p l (next_or_empty ls) @ insert_blanks l ls"
  by (simp add: next_or_empty_def)

text \<open>A list in which no neighbours call for a blank line is left as it is.\<close>

lemma chain_insert_blanks: "chain p ls \<Longrightarrow> insert_blanks p ls = ls"
proof (induction ls arbitrary: p)
  case Nil
  then show ?case by simp
next
  case (Cons l ls)
  then have s: "settled p l" and c: "chain l ls" by auto
  have "blanks_after l (next_or_empty ls) = []"
  proof (cases ls)
    case Nil
    then show ?thesis using settled_Nil_right [of l] by (simp add: next_or_empty_def settled_def)
  next
    case (Cons n ns)
    with c show ?thesis by (simp add: next_or_empty_def settled_def)
  qed
  with s have "emit p l (next_or_empty ls) = [l]" by (simp add: emit_split settled_def)
  with Cons.IH [OF c] show ?case by (simp only: insert_blanks_Cons) simp
qed

lemma chain_first_pass: "chain p ls \<Longrightarrow> first_pass ls = ls"
  by (induction ls arbitrary: p) (auto simp: first_pass_def settled_def)

text \<open>What the second pass returns is such a list.\<close>

lemma insert_blanks_chain:
  assumes "list_all (\<lambda>l. first_pass_line l = l) ls"
    and "q = [] \<or> (q = p \<and> blanks_after p (next_or_empty ls) = [])"
  shows "chain q (insert_blanks p ls)"
  using assms
proof (induction ls arbitrary: p q)
  case Nil
  then show ?case by simp
next
  case (Cons l ls)
  let ?B = "blanks_before p l" and ?A = "blanks_after l (next_or_empty ls)"
  from Cons.prems(1) have fl: "first_pass_line l = l"
    and fls: "list_all (\<lambda>l. first_pass_line l = l) ls" by auto
  have ql: "settled (last (q # ?B)) l"
  proof (cases "?B = []")
    case True
    from Cons.prems(2) show ?thesis
    proof
      assume "q = []" with True fl show ?thesis by (simp add: settled_Nil_left)
    next
      assume "q = p \<and> blanks_after p (next_or_empty (l # ls)) = []"
      with True fl show ?thesis by (simp add: settled_def next_or_empty_def)
    qed
  next
    case False
    then have "last (q # ?B) = []" using blanks_before_blank by (intro last_blanks)
    with fl show ?thesis by (simp add: settled_Nil_left)
  qed
  have rest: "chain (last (l # ?A)) (insert_blanks l ls)"
  proof (cases "?A = []")
    case True
    then show ?thesis using Cons.IH [OF fls, of l l] by simp
  next
    case False
    then have "last (l # ?A) = []" using blanks_after_blank by (intro last_blanks)
    then show ?thesis using Cons.IH [OF fls, of "[]" l] by simp
  qed
  have "chain q (?B @ [l] @ ?A @ insert_blanks l ls)"
    unfolding chain_append
    using ql rest chain_blanks [OF blanks_before_blank] chain_blanks [OF blanks_after_blank]
    by simp
  then show ?case by (simp only: insert_blanks_Cons emit_split append_assoc)
qed

section \<open>Collapsing blank runs\<close>

lemma re_match_Once_Nil: "re_match (Cls P Once # as) [] = None"
  by (subst re_match_Once) simp

lemma blank_run_match_not_nl: "c \<noteq> CHR 0x0A \<Longrightarrow> blank_run_match (c # cs) = None"
proof -
  assume "c \<noteq> CHR 0x0A"
  then have np: "\<not> is_char (CHR 0x0A) c" by (simp add: is_char_def)
  have "re_match blank_run_rx (c # cs) = None"
    unfolding blank_run_rx_def
    by (rule re_match_Once_Cons_None [where P = "is_char (CHR 0x0A)" and c = c, OF np])
  then show ?thesis by (simp add: blank_run_match_def)
qed

lemma blank_run_match_SomeD:
  assumes "blank_run_match s = Some x"
  shows "startswith s [CHR 0x0A, CHR 0x0A, CHR 0x0A]"
proof -
  from assms obtain ps where m: "re_match blank_run_rx s = Some ps"
    by (auto simp: blank_run_match_def)
  let ?n = "is_char (CHR 0x0A)"
  from m have "re_match (Cls ?n Once # [Cls ?n Once, Cls ?n Plus]) s = Some ps"
    by (simp only: blank_run_rx_def)
  from re_match_Cls_SomeD [OF this] obtain k0 r0 where
    0: "re_match (Cls ?n Once # [Cls ?n Plus]) (drop k0 s) = Some r0"
    and a0: "list_all ?n (take k0 s)" and n0: "take k0 s \<noteq> []" by blast
  from re_match_Cls_SomeD [OF 0] obtain k1 r1 where
    1: "re_match (Cls ?n Plus # []) (drop k1 (drop k0 s)) = Some r1"
    and a1: "list_all ?n (take k1 (drop k0 s))" and n1: "take k1 (drop k0 s) \<noteq> []" by blast
  from re_match_Cls_SomeD [OF 1] obtain k2 where
    a2: "list_all ?n (take k2 (drop k1 (drop k0 s)))"
    and n2: "take k2 (drop k1 (drop k0 s)) \<noteq> []" by blast
  define a where "a = take k0 s"
  define b where "b = take k1 (drop k0 s)"
  define c where "c = take k2 (drop k1 (drop k0 s))"
  define d where "d = drop k2 (drop k1 (drop k0 s))"
  have s: "s = a @ b @ c @ d"
    unfolding a_def b_def c_def d_def by (simp only: append_take_drop_id)
  from a0 n0 obtain a' where a: "a = CHR 0x0A # a'" "list_all ?n a'"
    unfolding a_def [symmetric] by (cases a) (auto simp: is_char_def)
  from a1 n1 obtain b' where b: "b = CHR 0x0A # b'" "list_all ?n b'"
    unfolding b_def [symmetric] by (cases b) (auto simp: is_char_def)
  from a2 n2 obtain c' where c: "c = CHR 0x0A # c'"
    unfolding c_def [symmetric] by (cases c) (auto simp: is_char_def)
  have "startswith (a @ b @ c @ d) [CHR 0x0A, CHR 0x0A, CHR 0x0A]"
  proof (cases a')
    case Nil
    show ?thesis
    proof (cases b')
      case Nil
      with \<open>a' = []\<close> a b c show ?thesis by (simp add: startswith_def)
    next
      case (Cons y ys)
      with \<open>a' = []\<close> a b show ?thesis by (simp add: startswith_def is_char_def)
    qed
  next
    case (Cons x xs)
    show ?thesis
    proof (cases xs)
      case Nil
      with Cons a b show ?thesis by (simp add: startswith_def is_char_def)
    next
      case (Cons y ys)
      with \<open>a' = x # xs\<close> a show ?thesis by (simp add: startswith_def is_char_def)
    qed
  qed
  then show ?thesis unfolding s [symmetric] .
qed

lemma blank_run_match_run:
  "blank_run_match (CHR 0x0A # CHR 0x0A # CHR 0x0A # cs)
   = Some (3 + length (takeWhile (is_char (CHR 0x0A)) cs), [CHR 0x0A, CHR 0x0A])"
proof -
  let ?n = "is_char (CHR 0x0A)"
  have n: "?n (CHR 0x0A)" by (simp add: is_char_def)
  have t: "takeWhile ?n (CHR 0x0A # cs) = CHR 0x0A # takeWhile ?n cs" using n by simp
  have p: "re_match [Cls ?n Plus] (CHR 0x0A # cs) = Some [CHR 0x0A # takeWhile ?n cs]"
    by (rule re_match_Plus_all [OF t]) simp_all
  have "re_match blank_run_rx (CHR 0x0A # CHR 0x0A # CHR 0x0A # cs)
        = Some [[CHR 0x0A], [CHR 0x0A], CHR 0x0A # takeWhile ?n cs]"
    unfolding blank_run_rx_def re_match_Once_Cons [of ?n, OF n] p by simp
  then show ?thesis by (simp add: blank_run_match_def)
qed

lemma collapse_Nil: "collapse_blank_runs [] = []"
  by (simp add: collapse_blank_runs_def re_sub_def)

lemma collapse_not_nl:
  "c \<noteq> CHR 0x0A \<Longrightarrow> collapse_blank_runs (c # cs) = c # collapse_blank_runs cs"
  by (simp add: collapse_blank_runs_def re_sub_def blank_run_match_not_nl)

lemma collapse_short:
  assumes "\<not> startswith (c # cs) [CHR 0x0A, CHR 0x0A, CHR 0x0A]"
  shows "collapse_blank_runs (c # cs) = c # collapse_blank_runs cs"
proof -
  have "blank_run_match (c # cs) = None"
    using assms blank_run_match_SomeD [of "c # cs"] by (cases "blank_run_match (c # cs)") auto
  then show ?thesis by (simp add: collapse_blank_runs_def re_sub_def)
qed

lemma collapse_run:
  "collapse_blank_runs (CHR 0x0A # CHR 0x0A # CHR 0x0A # cs)
   = CHR 0x0A # CHR 0x0A # collapse_blank_runs (dropWhile (is_char (CHR 0x0A)) cs)"
proof -
  let ?n = "is_char (CHR 0x0A)"
  let ?xs = "CHR 0x0A # CHR 0x0A # takeWhile ?n cs"
  have "re_sub_from blank_run_match (length ?xs) (?xs @ dropWhile ?n cs)
        = re_sub_from blank_run_match 0 (dropWhile ?n cs)"
    by (rule re_sub_from_skip)
  then have "re_sub_from blank_run_match (2 + length (takeWhile ?n cs)) (CHR 0x0A # CHR 0x0A # cs)
        = re_sub_from blank_run_match 0 (dropWhile ?n cs)"
    by simp
  then show ?thesis
    by (simp add: collapse_blank_runs_def re_sub_def blank_run_match_run)
qed

lemma str_split_nl_prefix:
  "c \<notin> set p \<Longrightarrow> str_split c (p @ c # s) = p # str_split c s"
  by (simp add: str_split_prefix)

lemma str_split_replicate:
  "str_split c (replicate k c @ s) = replicate k [] @ str_split c s"
  by (induction k) auto

lemma str_split_snoc: "str_split c (u @ [c]) = str_split c u @ [[]]"
proof (induction u)
  case Nil
  then show ?case by simp
next
  case (Cons x xs)
  obtain h t where ht: "str_split c xs = h # t" by (cases "str_split c xs") auto
  with Cons show ?case by auto
qed

lemma str_split_snoc_replicate:
  "str_split c (u @ replicate k c) = str_split c u @ replicate k []"
proof (induction k)
  case 0
  then show ?case by simp
next
  case (Suc k)
  have "u @ replicate (Suc k) c = (u @ replicate k c) @ [c]"
    by (simp add: replicate_append_same)
  then have "str_split c (u @ replicate (Suc k) c) = str_split c (u @ replicate k c) @ [[]]"
    by (simp only: str_split_snoc)
  with Suc show ?case by (simp add: replicate_append_same)
qed

lemma chain_replicate_Nil: "chain [] (replicate k [] @ ls) \<Longrightarrow> chain [] ls"
  by (induction k) auto

lemma run_decomp:
  "cs = replicate (length (takeWhile (is_char c) cs)) c @ dropWhile (is_char c) cs"
proof -
  have "takeWhile (is_char c) cs = replicate (length (takeWhile (is_char c) cs)) c"
    by (rule replicate_length_same [symmetric]) (auto dest: set_takeWhileD simp: is_char_def)
  then show ?thesis by (metis takeWhile_dropWhile_id)
qed

lemma chain_collapse:
  "CHR 0x0A \<notin> set p \<Longrightarrow> chain q (str_split (CHR 0x0A) (p @ t)) \<Longrightarrow>
   chain q (str_split (CHR 0x0A) (p @ collapse_blank_runs t))"
proof (induction t arbitrary: p q rule: length_induct)
  case (1 t)
  note IH = "1.IH" [rule_format]
  show ?case
  proof (cases t)
    case Nil
    with "1.prems" show ?thesis by (simp add: collapse_Nil)
  next
    case (Cons c cs)
    show ?thesis
    proof (cases "c = CHR 0x0A")
      case False
      have p': "CHR 0x0A \<notin> set (p @ [c])" using False "1.prems"(1) by simp
      have "chain q (str_split (CHR 0x0A) ((p @ [c]) @ cs))"
        using "1.prems"(2) Cons by simp
      from IH [OF _ p' this] Cons
      have "chain q (str_split (CHR 0x0A) ((p @ [c]) @ collapse_blank_runs cs))" by simp
      then show ?thesis using Cons False by (simp add: collapse_not_nl)
    next
      case True
      note c = this
      show ?thesis
      proof (cases "startswith (c # cs) [CHR 0x0A, CHR 0x0A, CHR 0x0A]")
        case False
        have sp: "str_split (CHR 0x0A) (p @ t) = p # str_split (CHR 0x0A) cs"
          using Cons c "1.prems"(1) by (simp add: str_split_nl_prefix)
        with "1.prems"(2) have a: "settled q p" and b: "chain p (str_split (CHR 0x0A) ([] @ cs))"
          by auto
        have "chain p (str_split (CHR 0x0A) ([] @ collapse_blank_runs cs))"
          by (rule IH [OF _ _ b]) (simp_all add: Cons)
        with a have "chain q (p # str_split (CHR 0x0A) (collapse_blank_runs cs))" by simp
        moreover have "collapse_blank_runs t = CHR 0x0A # collapse_blank_runs cs"
          using collapse_short [OF False] Cons c by simp
        ultimately show ?thesis
          using "1.prems"(1) by (simp add: str_split_nl_prefix)
      next
        case True
        then obtain cs' where cs: "cs = CHR 0x0A # CHR 0x0A # cs'"
          by (cases cs; cases "tl cs") (auto simp: startswith_def)
        let ?d = "dropWhile (is_char (CHR 0x0A)) cs'"
        have t: "t = CHR 0x0A # CHR 0x0A # CHR 0x0A # cs'" using Cons c cs by simp
        have sp: "str_split (CHR 0x0A) (p @ t) = p # [] # [] # str_split (CHR 0x0A) cs'"
          unfolding t using "1.prems"(1) by (simp add: str_split_nl_prefix)
        with "1.prems"(2) have a: "settled q p" and b: "chain [] (str_split (CHR 0x0A) cs')"
          by auto
        have "str_split (CHR 0x0A) cs'
              = replicate (length (takeWhile (is_char (CHR 0x0A)) cs')) [] @ str_split (CHR 0x0A) ?d"
          by (subst run_decomp [of cs' "CHR 0x0A"]) (simp only: str_split_replicate)
        with b have "chain [] (str_split (CHR 0x0A) ([] @ ?d))"
          using chain_replicate_Nil by simp
        moreover have "length ?d < length t"
          unfolding t using length_dropWhile_le [of "is_char (CHR 0x0A)" cs'] by simp
        ultimately have "chain [] (str_split (CHR 0x0A) ([] @ collapse_blank_runs ?d))"
          by (intro IH) simp_all
        with a have "chain q (p # [] # str_split (CHR 0x0A) (collapse_blank_runs ?d))"
          by (simp add: settled_Nil_right)
        then show ?thesis
          unfolding t collapse_run using "1.prems"(1) by (simp add: str_split_nl_prefix)
      qed
    qed
  qed
qed

lemma no_blank_run_collapse_id: "no_blank_run t \<Longrightarrow> collapse_blank_runs t = t"
proof (induction t)
  case Nil
  then show ?case by (simp add: collapse_Nil)
next
  case (Cons c cs)
  then have "\<not> startswith (c # cs) [CHR 0x0A, CHR 0x0A, CHR 0x0A]" and "no_blank_run cs"
    by auto
  with Cons.IH show ?case by (simp add: collapse_short)
qed

lemma collapse_keeps_start:
  assumes "t = [] \<or> hd t \<noteq> CHR 0x0A"
  shows "collapse_blank_runs t = [] \<or> hd (collapse_blank_runs t) \<noteq> CHR 0x0A"
proof (cases t)
  case Nil
  then show ?thesis by (simp add: collapse_Nil)
next
  case (Cons c cs)
  with assms have "c \<noteq> CHR 0x0A" by simp
  with Cons show ?thesis by (simp add: collapse_not_nl)
qed

lemma startswith_nl3: 
  "startswith (CHR 0x0A # s) [CHR 0x0A, CHR 0x0A, CHR 0x0A] = startswith s [CHR 0x0A, CHR 0x0A]"
  by (simp add: startswith_def)

lemma startswith_nl2:
  "startswith s [CHR 0x0A, CHR 0x0A]
   = (\<exists>r. s = CHR 0x0A # r \<and> r \<noteq> [] \<and> hd r = CHR 0x0A)"
proof (cases s)
  case Nil
  then show ?thesis by (simp add: startswith_def)
next
  case (Cons a r)
  then show ?thesis by (cases r) (auto simp: startswith_def)
qed

lemma collapse_two_newlines:
  assumes "startswith (collapse_blank_runs s) [CHR 0x0A, CHR 0x0A]"
  shows "startswith s [CHR 0x0A, CHR 0x0A]"
proof (cases s)
  case Nil
  with assms show ?thesis by (simp add: collapse_Nil)
next
  case (Cons c cs)
  show ?thesis
  proof (cases "c = CHR 0x0A")
    case False
    with assms Cons show ?thesis by (simp add: collapse_not_nl startswith_def)
  next
    case True
    show ?thesis
    proof (cases "startswith (c # cs) [CHR 0x0A, CHR 0x0A, CHR 0x0A]")
      case True
      with \<open>c = CHR 0x0A\<close> have "startswith cs [CHR 0x0A, CHR 0x0A]"
        by (simp add: startswith_nl3)
      then show ?thesis using Cons \<open>c = CHR 0x0A\<close> unfolding startswith_nl2 by auto
    next
      case False
      from collapse_short [OF False] assms Cons True
      have "startswith (CHR 0x0A # collapse_blank_runs cs) [CHR 0x0A, CHR 0x0A]" by simp
      then have "collapse_blank_runs cs \<noteq> [] \<and> hd (collapse_blank_runs cs) = CHR 0x0A"
        unfolding startswith_nl2 by auto
      with collapse_keeps_start [of cs] have "cs \<noteq> [] \<and> hd cs = CHR 0x0A" by auto
      with Cons True show ?thesis unfolding startswith_nl2 by auto
    qed
  qed
qed

lemma no_blank_run_collapse: "no_blank_run (collapse_blank_runs t)"
proof (induction t rule: length_induct)
  case (1 t)
  note IH = "1.IH" [rule_format]
  show ?case
  proof (cases t)
    case Nil
    then show ?thesis by (simp add: collapse_Nil)
  next
    case (Cons c cs)
    show ?thesis
    proof (cases "startswith (c # cs) [CHR 0x0A, CHR 0x0A, CHR 0x0A]")
      case False
      have cl: "collapse_blank_runs t = c # collapse_blank_runs cs"
        using collapse_short [OF False] Cons by simp
      have "\<not> startswith (c # collapse_blank_runs cs) [CHR 0x0A, CHR 0x0A, CHR 0x0A]"
      proof
        assume a: "startswith (c # collapse_blank_runs cs) [CHR 0x0A, CHR 0x0A, CHR 0x0A]"
        then have c: "c = CHR 0x0A" by (simp add: startswith_def)
        with a have "startswith (collapse_blank_runs cs) [CHR 0x0A, CHR 0x0A]"
          by (simp add: startswith_nl3)
        then have "startswith cs [CHR 0x0A, CHR 0x0A]" by (rule collapse_two_newlines)
        with c False show False by (simp add: startswith_nl3)
      qed
      moreover have "no_blank_run (collapse_blank_runs cs)" by (rule IH) (simp add: Cons)
      ultimately show ?thesis unfolding cl by simp
    next
      case True
      then obtain cs' where t: "t = CHR 0x0A # CHR 0x0A # CHR 0x0A # cs'"
        using Cons by (cases cs; cases "tl cs") (auto simp: startswith_def)
      let ?d = "dropWhile (is_char (CHR 0x0A)) cs'"
      let ?X = "collapse_blank_runs ?d"
      have "?d = [] \<or> hd ?d \<noteq> CHR 0x0A"
        using hd_dropWhile [of "is_char (CHR 0x0A)" cs'] by (auto simp: is_char_def)
      then have x: "?X = [] \<or> hd ?X \<noteq> CHR 0x0A" by (rule collapse_keeps_start)
      have "length ?d < length t"
        unfolding t using length_dropWhile_le [of "is_char (CHR 0x0A)" cs'] by simp
      then have nx: "no_blank_run ?X" by (rule IH)
      have 1: "\<not> startswith (CHR 0x0A # CHR 0x0A # ?X) [CHR 0x0A, CHR 0x0A, CHR 0x0A]"
        using x unfolding startswith_nl3 startswith_nl2 by auto
      have 2: "\<not> startswith (CHR 0x0A # ?X) [CHR 0x0A, CHR 0x0A, CHR 0x0A]"
        using x unfolding startswith_nl3 startswith_nl2 by auto
      show ?thesis unfolding t collapse_run using 1 2 nx by simp
    qed
  qed
qed

lemma startswith_append: "startswith s p \<Longrightarrow> startswith (s @ v) p"
proof -
  assume "startswith s p"
  then have t: "take (length p) s = p" by (simp add: startswith_def)
  then have "length (take (length p) s) = length p" by simp
  then have "length p \<le> length s" by simp
  with t show ?thesis by (simp add: startswith_def)
qed

lemma no_blank_run_prefix: "no_blank_run (u @ v) \<Longrightarrow> no_blank_run u"
proof (induction u)
  case Nil
  then show ?case by simp
next
  case (Cons c u)
  have "startswith (c # u) [CHR 0x0A, CHR 0x0A, CHR 0x0A]
        \<Longrightarrow> startswith (c # u @ v) [CHR 0x0A, CHR 0x0A, CHR 0x0A]"
    using startswith_append [of "c # u" _ v] by simp
  with Cons show ?case by auto
qed

lemma no_blank_run_snoc:
  "no_blank_run u \<Longrightarrow> u = [] \<or> last u \<noteq> CHR 0x0A \<Longrightarrow> no_blank_run (u @ [CHR 0x0A])"
proof (induction u)
  case Nil
  then show ?case by (simp add: startswith_def)
next
  case (Cons c u)
  have tl: "u = [] \<or> last u \<noteq> CHR 0x0A" using Cons.prems(2) by auto
  from Cons.prems(1) have n: "\<not> startswith (c # u) [CHR 0x0A, CHR 0x0A, CHR 0x0A]"
    and nu: "no_blank_run u" by auto
  have "\<not> startswith (c # u @ [CHR 0x0A]) [CHR 0x0A, CHR 0x0A, CHR 0x0A]"
  proof (cases u)
    case Nil
    then show ?thesis by (simp add: startswith_def)
  next
    case (Cons a r)
    show ?thesis
    proof (cases r)
      case Nil
      with Cons tl show ?thesis by (simp add: startswith_def)
    next
      case (Cons b r')
      with \<open>u = a # r\<close> n show ?thesis by (simp add: startswith_def)
    qed
  qed
  with Cons.IH [OF nu tl] show ?case by simp
qed

lemma str_rstrip_chars_decomp:
  "s = str_rstrip_chars [c] s @ replicate (length (takeWhile (\<lambda>x. x \<in> set [c]) (rev s))) c"
proof -
  let ?P = "\<lambda>x. x \<in> set [c]"
  have r: "takeWhile ?P (rev s) = replicate (length (takeWhile ?P (rev s))) c"
    by (rule replicate_length_same [symmetric]) (auto dest: set_takeWhileD)
  have "rev (dropWhile ?P (rev s)) @ rev (takeWhile ?P (rev s))
        = rev (takeWhile ?P (rev s) @ dropWhile ?P (rev s))"
    by (simp only: rev_append)
  also have "\<dots> = s" by (simp only: takeWhile_dropWhile_id rev_rev_ident)
  finally have "s = str_rstrip_chars [c] s @ rev (takeWhile ?P (rev s))"
    by (simp add: str_rstrip_chars_def)
  moreover have "rev (takeWhile ?P (rev s)) = replicate (length (takeWhile ?P (rev s))) c"
    by (subst r) simp
  ultimately show ?thesis by simp
qed

lemma str_rstrip_chars_last:
  "str_rstrip_chars [c] s = [] \<or> last (str_rstrip_chars [c] s) \<noteq> c"
proof (cases "dropWhile (\<lambda>x. x \<in> set [c]) (rev s) = []")
  case True
  then show ?thesis by (simp add: str_rstrip_chars_def)
next
  case False
  from hd_dropWhile [OF False] have "hd (dropWhile (\<lambda>x. x \<in> set [c]) (rev s)) \<noteq> c" by simp
  with False show ?thesis by (simp add: str_rstrip_chars_def last_rev)
qed

lemma str_rstrip_chars_snoc:
  "u = [] \<or> last u \<noteq> c \<Longrightarrow> str_rstrip_chars [c] (u @ [c]) = u"
proof -
  assume a: "u = [] \<or> last u \<noteq> c"
  have "dropWhile (\<lambda>x. x \<in> set [c]) (rev u) = rev u"
    using a by (cases "rev u") (auto simp: last_rev [symmetric] simp del: last_rev)
  then show ?thesis by (simp add: str_rstrip_chars_def)
qed

section \<open>The first pass is idempotent\<close>

lemma fixed_parts_pad:
  "fixed_parts parts =
     map (\<lambda>j. if j = 0 \<or> j = length parts - 1 then parts ! j else pad_cell (parts ! j))
       [0..<length parts]"
  by (simp add: fixed_parts_def pad_cell_def)

lemma fixed_parts_ends: "fixed_parts (a # ms @ [z]) = a # map pad_cell ms @ [z]"
proof (rule nth_equalityI)
  show "length (fixed_parts (a # ms @ [z])) = length (a # map pad_cell ms @ [z])"
    by (simp add: fixed_parts_pad)
next
  fix j assume "j < length (fixed_parts (a # ms @ [z]))"
  then have j: "j < Suc (Suc (length ms))" by (simp add: fixed_parts_pad)
  then have n: "fixed_parts (a # ms @ [z]) ! j
        = (if j = 0 \<or> j = Suc (length ms) then (a # ms @ [z]) ! j
           else pad_cell ((a # ms @ [z]) ! j))"
    unfolding fixed_parts_pad by (subst nth_map) (simp_all del: upt_Suc)
  show "fixed_parts (a # ms @ [z]) ! j = (a # map pad_cell ms @ [z]) ! j"
  proof (cases "j = 0")
    case True
    with n show ?thesis by simp
  next
    case False
    then obtain i where i: "j = Suc i" by (cases j) auto
    show ?thesis
    proof (cases "i = length ms")
      case True
      with n i show ?thesis by (simp add: nth_append)
    next
      case False
      with j i have "i < length ms" by simp
      with n i False show ?thesis by (simp add: nth_append)
    qed
  qed
qed

lemma str_split_append:
  "str_split c (u @ c # v) = str_split c u @ str_split c v"
proof (induction u)
  case Nil
  then show ?case by simp
next
  case (Cons x u)
  obtain h t where ht: "str_split c u = h # t" by (cases "str_split c u") auto
  with Cons show ?case by auto
qed

lemma str_join_snoc: "xs \<noteq> [] \<Longrightarrow> str_join sep (xs @ [z]) = str_join sep xs @ sep @ z"
proof (induction xs)
  case Nil
  then show ?case by simp
next
  case (Cons x xs)
  then show ?case by (cases xs) auto
qed

lemma table_sep_shape:
  assumes "re_match table_sep_rx line = Some ps"
  shows "\<exists>mid e. line = CHR ''|'' # mid @ CHR ''|'' # e \<and> mid \<noteq> []
           \<and> list_all (one_of ''-:| '') mid \<and> (e = [] \<or> e = [CHR 0x0A])"
proof -
  let ?b = "is_char CHR ''|''" and ?c = "one_of ''-:| ''"
  from assms have "re_match (Cls ?b Once # [Cls ?c Plus, Cls ?b Once, Eol]) line = Some ps"
    by (simp only: table_sep_rx_def)
  from re_match_Cls_SomeD [OF this] obtain k0 r0 where
    0: "re_match (Cls ?c Plus # [Cls ?b Once, Eol]) (drop k0 line) = Some r0"
    and a0: "list_all ?b (take k0 line)" and n0: "take k0 line \<noteq> []" by blast
  from re_match_Cls_SomeD [OF 0] obtain k1 r1 where
    1: "re_match (Cls ?b Once # [Eol]) (drop k1 (drop k0 line)) = Some r1"
    and a1: "list_all ?c (take k1 (drop k0 line))" and n1: "take k1 (drop k0 line) \<noteq> []"
    by blast
  from re_match_Cls_SomeD [OF 1] obtain k2 r2 where
    2: "re_match [Eol] (drop k2 (drop k1 (drop k0 line))) = Some r2"
    and a2: "list_all ?b (take k2 (drop k1 (drop k0 line)))"
    and n2: "take k2 (drop k1 (drop k0 line)) \<noteq> []" by blast
  define a where "a = take k0 line"
  define b where "b = take k1 (drop k0 line)"
  define c where "c = take k2 (drop k1 (drop k0 line))"
  define e where "e = drop k2 (drop k1 (drop k0 line))"
  have l: "line = a @ b @ c @ e"
    unfolding a_def b_def c_def e_def by (simp only: append_take_drop_id)
  from 2 have e: "e = [] \<or> e = [CHR 0x0A]" unfolding e_def by (auto split: if_splits)
  from a0 n0 obtain a' where a: "a = CHR ''|'' # a'" "list_all ?b a'"
    unfolding a_def [symmetric] by (cases a) (auto simp: is_char_def)
  from a2 n2 have "last c = CHR ''|''" "list_all ?b (butlast c)" "c \<noteq> []"
    unfolding c_def [symmetric]
    by (auto simp: list_all_iff is_char_def dest: in_set_butlastD)
  then have c: "c = butlast c @ [CHR ''|'']" "list_all ?b (butlast c)"
    using append_butlast_last_id [of c] by auto
  have bc: "\<And>x. ?b x \<Longrightarrow> ?c x" by (simp add: is_char_def one_of_def)
  define mid where "mid = a' @ b @ butlast c"
  have "line = CHR ''|'' # mid @ CHR ''|'' # e"
    unfolding l mid_def using a(1) c(1) by (metis append_Cons append_Nil append_assoc)
  moreover have "mid \<noteq> []" using n1 by (simp add: mid_def b_def)
  moreover have "list_all ?c mid"
    using a(2) a1 c(2) bc by (auto simp: mid_def b_def list_all_iff)
  ultimately show ?thesis using e by blast
qed

lemma table_sep_match:
  assumes "mid \<noteq> []" and "list_all (one_of ''-:| '') mid" and "e = [] \<or> e = [CHR 0x0A]"
  shows "re_match table_sep_rx (CHR ''|'' # mid @ CHR ''|'' # e) \<noteq> None"
proof -
  let ?b = "is_char CHR ''|''" and ?c = "one_of ''-:| ''"
  let ?s = "mid @ CHR ''|'' # e"
  let ?f = "\<lambda>k. map_option (\<lambda>r. take k ?s # r) (re_match [Cls ?b Once, Eol] (drop k ?s))"
  have b: "?b CHR ''|''" by (simp add: is_char_def)
  have "re_match [Eol] e \<noteq> None" using assms(3) by auto
  then have "re_match [Cls ?b Once, Eol] (CHR ''|'' # e) \<noteq> None"
    unfolding re_match_Once_Cons [of ?b, OF b] by simp
  then have fk: "?f (length mid) \<noteq> None" by simp
  have "takeWhile ?c ?s = mid @ takeWhile ?c (CHR ''|'' # e)"
    using assms(2) by (intro takeWhile_append2) (simp add: list_all_iff)
  then have "length mid \<le> length (takeWhile ?c ?s)" by simp
  moreover have "1 \<le> length mid" using assms(1) by (cases mid) auto
  ultimately have mem: "length mid \<in> set (desc (length (takeWhile ?c ?s)))"
    by (simp add: set_desc)
  have "first_some ?f (desc (length (takeWhile ?c ?s))) \<noteq> None"
  proof
    assume "first_some ?f (desc (length (takeWhile ?c ?s))) = None"
    then have "\<forall>x\<in>set (desc (length (takeWhile ?c ?s))). ?f x = None"
      by (rule first_some_None_iff [THEN iffD1])
    from bspec [OF this mem] fk show False by simp
  qed
  then have "re_match [Cls ?c Plus, Cls ?b Once, Eol] ?s \<noteq> None" by simp
  then show ?thesis
    unfolding table_sep_rx_def re_match_Once_Cons [of ?b, OF b] by simp
qed

lemma pad_cell_not_Nil: "pad_cell m \<noteq> []"
  by (simp add: pad_cell_def)

lemma set_pad_cell: "set (pad_cell m) \<subseteq> insert CHR '' '' (set m)"
  using set_str_strip [of m] by (auto simp: pad_cell_def remove_char_def)

lemma str_strip_padded:
  assumes "list_all (\<lambda>c. \<not> isspace c) r"
  shows "str_strip (CHR '' '' # r @ '' '') = r"
proof (cases r)
  case Nil
  then show ?thesis by (simp add: str_strip_def str_lstrip_def str_rstrip_def isspace_def)
next
  case (Cons x r')
  with assms have x: "\<not> isspace x" by simp
  have sp: "isspace CHR '' ''" by (simp add: isspace_def)
  have "str_lstrip (CHR '' '' # r @ '' '') = r @ '' ''"
    using Cons x sp by (simp add: str_lstrip_def)
  moreover have "str_rstrip (r @ '' '') = r"
  proof (rule str_rstrip_append_space)
    show "r \<noteq> []" using Cons by simp
    show "\<not> isspace (last r)" using assms Cons by (metis last_in_set list.distinct(1) list_all_iff)
    show "list_all isspace '' ''" using sp by simp
  qed
  ultimately show ?thesis by (simp add: str_strip_def)
qed

lemma pad_cell_idem:
  assumes "set m \<subseteq> set ''-: ''"
  shows "pad_cell (pad_cell m) = pad_cell m"
proof -
  define r where "r = remove_char CHR '' '' (str_strip m)"
  have "set r \<subseteq> set m - {CHR '' ''}"
    using set_str_strip [of m] by (auto simp: r_def remove_char_def)
  with assms have sr: "set r \<subseteq> {CHR ''-'', CHR '':''}" by auto
  then have ns: "list_all (\<lambda>c. \<not> isspace c) r" by (auto simp: list_all_iff isspace_def)
  have "remove_char CHR '' '' r = r"
    using sr unfolding remove_char_def by (intro filter_True) auto
  moreover have "str_strip (CHR '' '' # r @ '' '') = r" using ns by (rule str_strip_padded)
  ultimately show ?thesis by (simp add: pad_cell_def r_def [symmetric])
qed

lemma str_join_not_Nil: "xs \<noteq> [] \<Longrightarrow> hd xs \<noteq> [] \<Longrightarrow> str_join sep xs \<noteq> []"
  by (cases xs; cases "tl xs") auto

lemma sep_rewrite:
  assumes "CHR ''|'' \<notin> set e"
  shows "str_join ''|'' (fixed_parts (str_split CHR ''|'' (CHR ''|'' # mid @ CHR ''|'' # e)))
         = CHR ''|'' # str_join ''|'' (map pad_cell (str_split CHR ''|'' mid)) @ CHR ''|'' # e"
proof -
  let ?ms = "str_split CHR ''|'' mid"
  have "str_split CHR ''|'' (CHR ''|'' # mid @ CHR ''|'' # e) = [] # ?ms @ [e]"
    using assms by (simp add: str_split_append str_split_no_sep)
  then have "fixed_parts (str_split CHR ''|'' (CHR ''|'' # mid @ CHR ''|'' # e))
             = [] # map pad_cell ?ms @ [e]"
    by (simp only: fixed_parts_ends)
  moreover have "str_join ''|'' ([] # map pad_cell ?ms @ [e])
                 = ''|'' @ str_join ''|'' (map pad_cell ?ms) @ ''|'' @ e"
    by (simp add: str_join_Cons str_join_snoc)
  ultimately show ?thesis by simp
qed

lemma first_pass_line_sep:
  assumes "re_match table_sep_rx line = Some ps"
  shows "first_pass_line (first_pass_line line) = first_pass_line line"
proof -
  from table_sep_shape [OF assms] obtain mid e where
    l: "line = CHR ''|'' # mid @ CHR ''|'' # e" and mid: "mid \<noteq> []"
    and cls: "list_all (one_of ''-:| '') mid" and e: "e = [] \<or> e = [CHR 0x0A]" by blast
  have ne: "CHR ''|'' \<notin> set e" using e by auto
  let ?ms = "str_split CHR ''|'' mid"
  let ?mid' = "str_join ''|'' (map pad_cell ?ms)"
  let ?out = "CHR ''|'' # ?mid' @ CHR ''|'' # e"
  have out: "first_pass_line line = ?out"
    using assms unfolding first_pass_line_def l sep_rewrite [OF ne] by simp
  have m_cls: "set m \<subseteq> set ''-: ''" if "m \<in> set ?ms" for m
  proof -
    have "set m \<subseteq> set mid" using that by (rule set_str_split)
    moreover have "CHR ''|'' \<notin> set m" using that by (rule str_split_free)
    ultimately show ?thesis using cls by (auto simp: list_all_iff one_of_def)
  qed
  have pad_free: "list_all (\<lambda>l. CHR ''|'' \<notin> set l) (map pad_cell ?ms)"
  proof -
    have "CHR ''|'' \<notin> set (pad_cell m)" if "m \<in> set ?ms" for m
      using m_cls [OF that] set_pad_cell [of m] by auto
    then show ?thesis by (simp add: list_all_iff)
  qed
  have sp: "str_split CHR ''|'' ?mid' = map pad_cell ?ms"
    by (rule str_split_join [OF _ pad_free]) simp
  have mid'_ne: "?mid' \<noteq> []"
  proof (rule str_join_not_Nil)
    show "map pad_cell ?ms \<noteq> []" by simp
    show "hd (map pad_cell ?ms) \<noteq> []" by (simp add: hd_map pad_cell_not_Nil)
  qed
  have mid'_cls: "list_all (one_of ''-:| '') ?mid'"
  proof -
    have "x \<in> set ''-:| ''" if "x \<in> set ?mid'" for x
    proof -
      from that set_str_join [of "''|''" "map pad_cell ?ms"]
      have "x = CHR ''|'' \<or> (\<exists>m\<in>set ?ms. x \<in> set (pad_cell m))" by auto
      then show ?thesis
      proof
        assume "x = CHR ''|''" then show ?thesis by simp
      next
        assume "\<exists>m\<in>set ?ms. x \<in> set (pad_cell m)"
        then obtain m where "m \<in> set ?ms" "x \<in> set (pad_cell m)" by blast
        with m_cls [of m] set_pad_cell [of m] show ?thesis by auto
      qed
    qed
    then show ?thesis by (simp add: list_all_iff one_of_def)
  qed
  from table_sep_match [OF mid'_ne mid'_cls e]
  obtain ps' where m': "re_match table_sep_rx ?out = Some ps'" by auto
  have pp: "map pad_cell (map pad_cell ?ms) = map pad_cell ?ms"
    using m_cls by (simp add: pad_cell_idem)
  have "first_pass_line ?out = ?out"
    unfolding first_pass_line_def sep_rewrite [OF ne] sp pp using m' by simp
  then show ?thesis by (simp only: out)
qed

lemma first_pass_line_tag: "first_pass_line ''```text'' = ''```text''"
  by code_simp

lemma first_pass_line_idem: "first_pass_line (first_pass_line line) = first_pass_line line"
proof (cases "re_match table_sep_rx line")
  case (Some ps)
  then show ?thesis by (rule first_pass_line_sep)
next
  case None
  show ?thesis
  proof (cases "str_strip line = ''```''")
    case True
    with None have "first_pass_line line = ''```text''" by (simp add: first_pass_line_def)
    then show ?thesis by (simp only: first_pass_line_tag)
  next
    case False
    with None have "first_pass_line line = line" by (simp add: first_pass_line_def)
    then show ?thesis by simp
  qed
qed

lemma first_pass_line_no_newline:
  assumes "CHR 0x0A \<notin> set line"
  shows "CHR 0x0A \<notin> set (first_pass_line line)"
proof (cases "re_match table_sep_rx line")
  case None
  then show ?thesis using assms by (auto simp: first_pass_line_def)
next
  case (Some ps)
  from table_sep_shape [OF Some] obtain mid e where
    l: "line = CHR ''|'' # mid @ CHR ''|'' # e" and e: "e = [] \<or> e = [CHR 0x0A]" by blast
  from l assms have e': "e = []" and mid: "CHR 0x0A \<notin> set mid" using e by auto
  have "x \<noteq> CHR 0x0A" if "x \<in> set (str_join ''|'' (map pad_cell (str_split CHR ''|'' mid)))" for x
  proof -
    from that set_str_join [of "''|''" "map pad_cell (str_split CHR ''|'' mid)"]
    have "x = CHR ''|'' \<or> (\<exists>m\<in>set (str_split CHR ''|'' mid). x \<in> set (pad_cell m))" by auto
    then show ?thesis
    proof
      assume "x = CHR ''|''" then show ?thesis by simp
    next
      assume "\<exists>m\<in>set (str_split CHR ''|'' mid). x \<in> set (pad_cell m)"
      then obtain m where m: "m \<in> set (str_split CHR ''|'' mid)" "x \<in> set (pad_cell m)" by blast
      from set_str_split [OF m(1)] mid set_pad_cell [of m] m(2) show ?thesis by auto
    qed
  qed
  then have "CHR 0x0A \<notin> set (str_join ''|'' (map pad_cell (str_split CHR ''|'' mid)))" by blast
  moreover have "first_pass_line line
      = CHR ''|'' # str_join ''|'' (map pad_cell (str_split CHR ''|'' mid)) @ CHR ''|'' # e"
    using Some e unfolding first_pass_line_def l by (subst sep_rewrite) auto
  ultimately show ?thesis using e' by simp
qed

section \<open>The whole of \<open>fix_markdown_complete\<close>\<close>

lemma set_insert_blanks: "set (insert_blanks p ls) \<subseteq> insert [] (set ls)"
proof (induction ls arbitrary: p)
  case Nil
  then show ?case by simp
next
  case (Cons l ls)
  have "set (emit p l (next_or_empty ls)) \<subseteq> insert [] {l}"
    using blanks_before_blank [of p l] blanks_after_blank [of l "next_or_empty ls"]
    by (auto simp: emit_split)
  with Cons.IH [of l] show ?case by (simp only: insert_blanks_Cons) auto
qed

lemma insert_blanks_not_Nil: "ls \<noteq> [] \<Longrightarrow> insert_blanks p ls \<noteq> []"
  by (cases ls) (simp_all add: emit_split del: insert_blanks.simps add: insert_blanks_Cons)

lemma finish_chain:
  assumes "ls \<noteq> []" and "list_all (\<lambda>l. CHR 0x0A \<notin> set l) ls" and "chain [] ls"
  shows "chain [] (str_split (CHR 0x0A) (finish ls))
       \<and> no_blank_run (finish ls)
       \<and> str_rstrip_chars [CHR 0x0A] (finish ls) @ [CHR 0x0A] = finish ls"
proof -
  define c where "c = collapse_blank_runs (str_join [CHR 0x0A] ls)"
  define c' where "c' = str_rstrip_chars [CHR 0x0A] c"
  have fin: "finish ls = c' @ [CHR 0x0A]" by (simp add: finish_def c_def c'_def)
  have "str_split (CHR 0x0A) ([] @ str_join [CHR 0x0A] ls) = ls"
    using assms(1,2) by (simp add: str_split_join)
  with assms(3) have "chain [] (str_split (CHR 0x0A) ([] @ str_join [CHR 0x0A] ls))" by simp
  then have "chain [] (str_split (CHR 0x0A) ([] @ collapse_blank_runs (str_join [CHR 0x0A] ls)))"
    by (intro chain_collapse) simp_all
  then have cc: "chain [] (str_split (CHR 0x0A) c)" by (simp add: c_def)
  obtain k where dec: "c = c' @ replicate k (CHR 0x0A)"
    using str_rstrip_chars_decomp [of c "CHR 0x0A"] unfolding c'_def by blast
  have "str_split (CHR 0x0A) c = str_split (CHR 0x0A) c' @ replicate k []"
    by (subst dec) (rule str_split_snoc_replicate)
  with cc have c1: "chain [] (str_split (CHR 0x0A) c')" by (simp add: chain_append)
  have 1: "chain [] (str_split (CHR 0x0A) (finish ls))"
    unfolding fin str_split_snoc chain_append using c1 by (simp add: settled_Nil_right)
  have lst: "c' = [] \<or> last c' \<noteq> CHR 0x0A"
    unfolding c'_def by (rule str_rstrip_chars_last)
  have "no_blank_run c" unfolding c_def by (rule no_blank_run_collapse)
  then have "no_blank_run c'" by (subst (asm) dec) (rule no_blank_run_prefix)
  then have 2: "no_blank_run (finish ls)" unfolding fin using lst by (rule no_blank_run_snoc)
  have 3: "str_rstrip_chars [CHR 0x0A] (finish ls) @ [CHR 0x0A] = finish ls"
    unfolding fin using str_rstrip_chars_snoc [OF lst] by simp
  from 1 2 3 show ?thesis by blast
qed

lemma finish_fixed:
  fixes y :: string
  assumes "chain [] (str_split (CHR 0x0A) y)" and "no_blank_run y"
    and "str_rstrip_chars [CHR 0x0A] y @ [CHR 0x0A] = y"
  shows "finish (insert_blanks [] (first_pass (str_split (CHR 0x0A) y))) = y"
proof -
  have "first_pass (str_split (CHR 0x0A) y) = str_split (CHR 0x0A) y"
    using assms(1) by (rule chain_first_pass)
  moreover have "insert_blanks [] (str_split (CHR 0x0A) y) = str_split (CHR 0x0A) y"
    using assms(1) by (rule chain_insert_blanks)
  moreover have "collapse_blank_runs y = y" using assms(2) by (rule no_blank_run_collapse_id)
  ultimately show ?thesis using assms(3) by (simp add: finish_def str_join_split)
qed

lemma second_pass_output_chain:
  "chain [] (insert_blanks [] (first_pass (str_split (CHR 0x0A) content)))
   \<and> insert_blanks [] (first_pass (str_split (CHR 0x0A) content)) \<noteq> []
   \<and> list_all (\<lambda>l. CHR 0x0A \<notin> set l)
        (insert_blanks [] (first_pass (str_split (CHR 0x0A) content)))"
proof -
  let ?L1 = "first_pass (str_split (CHR 0x0A) content)"
  have fx: "list_all (\<lambda>l. first_pass_line l = l) ?L1"
    by (simp add: first_pass_def list_all_iff first_pass_line_idem)
  have 1: "chain [] (insert_blanks [] ?L1)" using fx by (rule insert_blanks_chain) simp
  have ne: "?L1 \<noteq> []" by (simp add: first_pass_def)
  then have 2: "insert_blanks [] ?L1 \<noteq> []" by (rule insert_blanks_not_Nil)
  have nl1: "CHR 0x0A \<notin> set l" if "l \<in> set ?L1" for l
  proof -
    from that obtain l0 where "l0 \<in> set (str_split (CHR 0x0A) content)" "l = first_pass_line l0"
      by (auto simp: first_pass_def)
    then show ?thesis using str_split_free first_pass_line_no_newline by blast
  qed
  have 3: "list_all (\<lambda>l. CHR 0x0A \<notin> set l) (insert_blanks [] ?L1)"
    unfolding list_all_iff using set_insert_blanks [of "[]" ?L1] nl1 by auto
  from 1 2 3 show ?thesis by blast
qed

section \<open>The claims\<close>

subsection \<open>C1\<close>

text \<open>
  C1 (amended). In \<open>fix_markdown_errors\<close>, every line reached while the loop is inside a
  code block (so every line strictly between an opening delimiter and its closing
  delimiter, and the closing delimiter itself) is emitted unchanged at the same line
  number, and the output has as many lines as the input: no rewrite fires on the line
  and no line is inserted around it.
\<close>

theorem fenced_lines_unchanged:
  assumes "i < length (str_split (CHR 0x0A) content)"
    and "fence_state False (str_split (CHR 0x0A) content) i"
  shows "length (str_split (CHR 0x0A) (fix_markdown_errors content))
           = length (str_split (CHR 0x0A) content)
       \<and> str_split (CHR 0x0A) (fix_markdown_errors content) ! i
           = str_split (CHR 0x0A) content ! i"
  using assms by (simp add: split_fix_markdown_errors length_errors_loop errors_loop_in_fence)

theorem fenced_lines_unchanged_witness:
  "(1::nat) < length (str_split (CHR 0x0A) ''```\<newline># a. \<newline>```'')
   \<and> fence_state False (str_split (CHR 0x0A) ''```\<newline># a. \<newline>```'') 1
   \<and> length (str_split (CHR 0x0A) (fix_markdown_errors ''```\<newline># a. \<newline>```''))
       = length (str_split (CHR 0x0A) ''```\<newline># a. \<newline>```'')
   \<and> str_split (CHR 0x0A) (fix_markdown_errors ''```\<newline># a. \<newline>```'') ! 1
       = str_split (CHR 0x0A) ''```\<newline># a. \<newline>```'' ! 1"
proof -
  have a: "(1::nat) < length (str_split (CHR 0x0A) ''```\<newline># a. \<newline>```'')"
    by code_simp
  have b: "fence_state False (str_split (CHR 0x0A) ''```\<newline># a. \<newline>```'') 1"
    by code_simp
  show ?thesis using a b fenced_lines_unchanged [OF a b] by blast
qed

text \<open>
  C1 as stated fails for \<open>fix_markdown_complete\<close>, which keeps no fence state: the
  separator-shaped line inside the fence is rewritten, and blank lines are inserted
  around it.
\<close>

theorem fence_content_rewritten_counterexample:
  "fence_state False (str_split (CHR 0x0A) ''```\<newline>|-|\<newline>```'') 1
   \<and> \<not> is_code_fence (str_split (CHR 0x0A) ''```\<newline>|-|\<newline>```'' ! 1)
   \<and> str_split (CHR 0x0A) ''```\<newline>|-|\<newline>```'' ! 1 = ''|-|''
   \<and> fix_markdown_complete ''```\<newline>|-|\<newline>```''
       = Inr ''```text\<newline>\<newline>| - |\<newline>\<newline>```text\<newline>''"
  by code_simp

subsection \<open>C2\<close>

text \<open>
  C2 (amended). \<open>fix_markdown_complete\<close> is idempotent: running it on its own output
  returns that output. (\<open>fix_markdown_errors\<close> is not.)
\<close>

theorem fix_markdown_complete_idempotent:
  "and_then (fix_markdown_complete content) fix_markdown_complete
   = fix_markdown_complete content"
proof -
  let ?L0 = "insert_blanks [] (first_pass (str_split (CHR 0x0A) content))"
  from second_pass_output_chain [of content]
  have "chain [] ?L0" "?L0 \<noteq> []" "list_all (\<lambda>l. CHR 0x0A \<notin> set l) ?L0" by blast+
  from finish_chain [OF this(2) this(3) this(1)]
  have "finish (insert_blanks [] (first_pass (str_split (CHR 0x0A) (finish ?L0)))) = finish ?L0"
    by (intro finish_fixed) blast+
  then show ?thesis by (simp add: fix_markdown_complete_eq and_then_def)
qed

text \<open>
  C2 as stated fails for \<open>fix_markdown_errors\<close>: the heading rule leaves a trailing space
  that the trailing-space rule strips, which uncovers punctuation for the next run.
\<close>

theorem fix_markdown_errors_not_idempotent_counterexample:
  "fix_markdown_errors ''# a. .'' = ''# a.''
   \<and> fix_markdown_errors (fix_markdown_errors ''# a. .'') = ''# a''
   \<and> fix_markdown_errors (fix_markdown_errors ''# a. .'') \<noteq> fix_markdown_errors ''# a. .''"
  by code_simp

subsection \<open>C3\<close>

text \<open>
  C3 (amended). In the first pass of \<open>fix_markdown_complete\<close> every line whose trimmed
  content is exactly the bare fence delimiter is rewritten to the delimiter with the
  language tag \<open>text\<close>, whether it opens or closes a fence: the function keeps no fence
  state.
\<close>

theorem bare_fence_always_tagged:
  assumes "i < length lines" and "str_strip (lines ! i) = ''```''"
  shows "first_pass lines ! i = ''```text''"
  using assms by (simp add: first_pass_def first_pass_line_def bare_fence_not_separator)

theorem bare_fence_always_tagged_witness:
  "(2::nat) < length [''```'', ''x'', '' ```  ''] \<and> str_strip ([''```'', ''x'', '' ```  ''] ! 2) = ''```''
   \<and> first_pass [''```'', ''x'', '' ```  ''] ! 2 = ''```text''"
proof -
  have a: "(2::nat) < length [''```'', ''x'', '' ```  '']" by simp
  have b: "str_strip ([''```'', ''x'', '' ```  ''] ! 2) = ''```''" by code_simp
  show ?thesis using a b bare_fence_always_tagged [OF a b] by simp
qed

text \<open>
  C3 as stated fails: in a document with one fenced block, the closing delimiter (line 2)
  is tagged as well.
\<close>

theorem closing_fence_tagged_counterexample:
  "str_split (CHR 0x0A) ''```\<newline>x\<newline>```'' ! 2 = ''```''
   \<and> first_pass (str_split (CHR 0x0A) ''```\<newline>x\<newline>```'') ! 2 = ''```text''
   \<and> fix_markdown_complete ''```\<newline>x\<newline>```'' = Inr ''```text\<newline>\<newline>x\<newline>\<newline>```text\<newline>''"
  by code_simp

subsection \<open>C4\<close>

text \<open>
  C4. The claim (and the comment of the source) keep trailing spaces only when there are
  exactly two; the guard of \<open>fix_markdown_errors\<close> tests whether the line ends in two
  spaces, so a line ending in three spaces is returned with all three.
\<close>

theorem three_trailing_spaces_kept:
  "fix_markdown_errors ''a   '' = ''a   ''"
  by code_simp

subsection \<open>C5\<close>

text \<open>
  C5 (amended). The MD037 step of \<open>fix_markdown_errors\<close>: the leftmost \<open>*\<close> of a line, when
  followed by whitespace, a text without \<open>*\<close> that neither starts nor ends in
  whitespace, whitespace and a \<open>*\<close>, is rewritten with the text to \<open>*text*\<close>, and the
  rewrite goes on behind it. Nothing exempts a \<open>*\<close> that is a list marker: with an empty
  prefix and one space the line is a list item, and its marker and spacing are lost.
\<close>

theorem emphasis_tightened:
  assumes "CHR ''*'' \<notin> set pre"
    and "ws1 \<noteq> []" and "list_all isspace ws1"
    and "t \<noteq> []" and "CHR ''*'' \<notin> set t" and "\<not> isspace (hd t)" and "\<not> isspace (last t)"
    and "ws2 \<noteq> []" and "list_all isspace ws2"
  shows "md037 (pre @ ''*'' @ ws1 @ t @ ws2 @ ''*'' @ post) = pre @ ''*'' @ t @ ''*'' @ md037 post"
proof -
  let ?inner = "ws1 @ t @ ws2 @ ''*''"
  have m: "emphasis_match (CHR ''*'' # ws1 @ t @ ws2 @ CHR ''*'' # post)
           = Some (Suc (length ?inner), ''*'' @ t @ ''*'')"
    unfolding emphasis_match_def emphasis_rx_match [OF assms(2-9)] by simp
  have sk: "re_sub_from emphasis_match (length ?inner) (?inner @ post)
            = re_sub_from emphasis_match 0 post"
    by (rule re_sub_from_skip)
  have "re_sub_from emphasis_match 0 (CHR ''*'' # ws1 @ t @ ws2 @ CHR ''*'' # post)
        = ''*'' @ t @ ''*'' @ re_sub_from emphasis_match 0 post"
    using m sk by simp
  then show ?thesis
    unfolding md037_def re_sub_def re_sub_from_emphasis_prefix [OF assms(1)] by simp
qed

theorem emphasis_tightened_witness:
  "CHR ''*'' \<notin> set '''' \<and> '' '' \<noteq> [] \<and> list_all isspace '' ''
   \<and> ''item one'' \<noteq> [] \<and> CHR ''*'' \<notin> set ''item one''
   \<and> \<not> isspace (hd ''item one'') \<and> \<not> isspace (last ''item one'')
   \<and> md037 ''* item one *'' = ''*item one*''"
proof -
  have h: "CHR ''*'' \<notin> set ''''" "'' '' \<noteq> []" "list_all isspace '' ''"
    "''item one'' \<noteq> []" "CHR ''*'' \<notin> set ''item one''"
    "\<not> isspace (hd ''item one'')" "\<not> isspace (last ''item one'')"
    by code_simp+
  have "md037 ('''' @ ''*'' @ '' '' @ ''item one'' @ '' '' @ ''*'' @ '''')
        = '''' @ ''*'' @ ''item one'' @ ''*'' @ md037 ''''"
    by (rule emphasis_tightened [OF h(1) h(2) h(3) h(4) h(5) h(6) h(7) h(2) h(3)])
  moreover have "md037 '''' = ''''" by code_simp
  ultimately have "md037 ''* item one *'' = ''*item one*''" by simp
  with h show ?thesis by blast
qed

text \<open>
  C5 as stated fails: a list item whose text has an emphasis loses its marker.
\<close>

theorem list_marker_rewritten_counterexample:
  "startswith ''* a *b*'' ''* '' \<and> is_list ''* a *b*''
   \<and> fix_markdown_errors ''* a *b*'' = ''*a*b*''"
  by code_simp

subsection \<open>C6\<close>

text \<open>
  C6 (amended). With a heading classified as the code does (the line starts with \<open>#\<close>
  and its second character is a space or \<open>#\<close>), the second pass of
  \<open>fix_markdown_complete\<close> returns, for the lines it is given, line after line: for a
  heading, one blank line unless the heading is the first line or the line before it
  is blank or a heading, then the heading, then one blank line unless the heading is
  the last line or the line after it is blank or a heading; for a line that is no
  heading, the line with the blank lines of the list and fence rules only. The
  neighbours are read from the list the pass was given, not from its output.
\<close>

theorem heading_blank_lines:
  "second_pass lines = Inr (concat (map (\<lambda>i.
     if heading (lines ! i) then
        (if 0 < i \<and> \<not> is_blank (lines ! (i - 1)) \<and> \<not> heading (lines ! (i - 1))
         then [[]] else [])
        @ [lines ! i]
        @ (if i + 1 < length lines \<and> \<not> is_blank (lines ! (i + 1))
              \<and> \<not> heading (lines ! (i + 1))
           then [[]] else [])
      else
        (if is_list (lines ! i) \<and> 0 < i \<and> \<not> is_blank (lines ! (i - 1))
            \<and> \<not> is_list (lines ! (i - 1)) \<and> \<not> heading (lines ! (i - 1))
            \<and> \<not> is_code_fence (lines ! (i - 1))
         then [[]] else [])
        @ (if is_code_fence (lines ! i) \<and> 0 < i \<and> \<not> is_blank (lines ! (i - 1))
              \<and> \<not> heading (lines ! (i - 1))
           then [[]] else [])
        @ [lines ! i]
        @ (if is_list (lines ! i) \<and> i + 1 < length lines \<and> \<not> is_blank (lines ! (i + 1))
              \<and> \<not> is_list (lines ! (i + 1)) \<and> \<not> heading (lines ! (i + 1))
           then [[]] else [])
        @ (if is_code_fence (lines ! i) \<and> i + 1 < length lines
              \<and> \<not> is_blank (lines ! (i + 1)) \<and> \<not> heading (lines ! (i + 1))
           then [[]] else []))
     [0..<length lines]))"
  unfolding second_pass_by_index
  by (intro arg_cong [where f = Inr] arg_cong [where f = concat] map_cong refl)
     (simp add: emit_at)

theorem heading_blank_lines_witness:
  "second_pass [''Some text'', ''# Heading'', ''More text'']
   = Inr [''Some text'', [], ''# Heading'', [], ''More text'']"
  unfolding heading_blank_lines by code_simp

text \<open>
  C6 as stated fails on the classification: in the words of the specification \<open>##a\<close>
  is no heading, the character after its run of \<open>#\<close> being \<open>a\<close>, yet the pass puts a
  blank line before it and after it.
\<close>

theorem heading_not_by_run_counterexample:
  "\<not> heading_by_run ''##a''
   \<and> second_pass [''x'', ''##a'', ''y''] = Inr [''x'', [], ''##a'', [], ''y'']
   \<and> fix_markdown_complete ''x\<newline>##a\<newline>y'' = Inr ''x\<newline>\<newline>##a\<newline>\<newline>y\<newline>''"
  by code_simp

subsection \<open>C7\<close>

text \<open>
  C7 (amended). The MD026 step of \<open>fix_markdown_errors\<close>: for a line made of one or more
  \<open>#\<close>, a run of whitespace, a title of at least one character that starts with a
  character that is no whitespace and ends with a character that is no punctuation, a
  run of one or more of \<open>. , ; :\<close> and a run of whitespace, exactly the punctuation run
  is dropped and the whitespace behind it is kept. A line whose content, trailing
  whitespace apart, is empty or does not end in one of the four characters is left
  unchanged by the step.
\<close>

theorem heading_punctuation_stripped:
  "(0 < n \<and> ws \<noteq> [] \<and> list_all isspace ws
      \<and> body \<noteq> [] \<and> \<not> isspace (hd body) \<and> CHR 0x0A \<notin> set body
      \<and> \<not> one_of ''.,;:'' (last body)
      \<and> ps \<noteq> [] \<and> list_all (one_of ''.,;:'') ps \<and> list_all isspace tw
    \<longrightarrow> md026 (replicate n CHR ''#'' @ ws @ body @ ps @ tw)
        = replicate n CHR ''#'' @ ws @ body @ tw)
   \<and> (str_rstrip line = [] \<or> \<not> one_of ''.,;:'' (last (str_rstrip line))
    \<longrightarrow> md026 line = line)"
  using md026_strips [of n ws body ps tw] md026_no_trailing_punct [of line] by blast

theorem heading_punctuation_stripped_witness:
  "(0::nat) < 2 \<and> '' '' \<noteq> [] \<and> list_all isspace '' ''
      \<and> ''Section Title'' \<noteq> [] \<and> \<not> isspace (hd ''Section Title'')
      \<and> CHR 0x0A \<notin> set ''Section Title''
      \<and> \<not> one_of ''.,;:'' (last ''Section Title'')
      \<and> '':'' \<noteq> [] \<and> list_all (one_of ''.,;:'') '':'' \<and> list_all isspace ''''
   \<and> md026 ''## Section Title:'' = ''## Section Title''
   \<and> \<not> one_of ''.,;:'' (last (str_rstrip ''## Section Title''))
   \<and> md026 ''## Section Title'' = ''## Section Title''"
proof -
  have h: "(0::nat) < 2" "'' '' \<noteq> []" "list_all isspace '' ''"
      "''Section Title'' \<noteq> []" "\<not> isspace (hd ''Section Title'')"
      "CHR 0x0A \<notin> set ''Section Title''"
      "\<not> one_of ''.,;:'' (last ''Section Title'')"
      "'':'' \<noteq> []" "list_all (one_of ''.,;:'') '':''" "list_all isspace ''''"
    by code_simp+
  have g: "\<not> one_of ''.,;:'' (last (str_rstrip ''## Section Title''))" by code_simp
  have r: "replicate 2 CHR ''#'' @ '' '' @ ''Section Title'' @ '':'' @ '''' = ''## Section Title:''"
    "replicate 2 CHR ''#'' @ '' '' @ ''Section Title'' @ '''' = ''## Section Title''"
    by code_simp+
  from heading_punctuation_stripped [of 2 "'' ''" "''Section Title''" "'':''" "''''" "''## Section Title''"]
    h g
  have "md026 (replicate 2 CHR ''#'' @ '' '' @ ''Section Title'' @ '':'' @ '''')
          = replicate 2 CHR ''#'' @ '' '' @ ''Section Title'' @ ''''"
    and "md026 ''## Section Title'' = ''## Section Title''" by blast+
  with r have "md026 ''## Section Title:'' = ''## Section Title''"
    "md026 ''## Section Title'' = ''## Section Title''" by simp_all
  with h g show ?thesis by blast
qed

text \<open>
  C7 as stated fails where the heading text is punctuation only: the pattern wants one
  character of title before the run, so of two dots one is kept, and a single dot stays.
\<close>

theorem heading_only_punctuation_counterexample:
  "md026 ''# ..'' = ''# .'' \<and> fix_markdown_errors ''# ..'' = ''# .''
   \<and> md026 ''# .'' = ''# .'' \<and> fix_markdown_errors ''# .'' = ''# .''"
  by code_simp

subsection \<open>C8\<close>

text \<open>
  C8 (amended). For every input, the text returned by \<open>fix_markdown_complete\<close> is the
  text made by the two passes and the collapse of blank runs, with all the newlines at
  its end taken off and one newline put back: it ends in exactly one newline, and no
  empty line is left at its end. A line of whitespace at the end is not taken off.
\<close>

theorem trailing_newlines_trimmed:
  "\<exists>result body k.
     second_pass (first_pass (str_split (CHR 0x0A) content)) = Inr result
     \<and> collapse_blank_runs (str_join [CHR 0x0A] result) = body @ replicate k (CHR 0x0A)
     \<and> \<not> endswith body [CHR 0x0A]
     \<and> fix_markdown_complete content = Inr (body @ [CHR 0x0A])"
proof -
  define result where "result = insert_blanks [] (first_pass (str_split (CHR 0x0A) content))"
  define cleaned where "cleaned = collapse_blank_runs (str_join [CHR 0x0A] result)"
  define body where "body = str_rstrip_chars [CHR 0x0A] cleaned"
  have 1: "second_pass (first_pass (str_split (CHR 0x0A) content)) = Inr result"
    by (simp add: second_pass_eq result_def)
  obtain k where 2: "cleaned = body @ replicate k (CHR 0x0A)"
    using str_rstrip_chars_decomp [of cleaned "CHR 0x0A"] unfolding body_def by blast
  have 3: "\<not> endswith body [CHR 0x0A]" unfolding body_def by (rule not_endswith_rstrip_chars)
  have 4: "fix_markdown_complete content = Inr (body @ [CHR 0x0A])"
    by (simp add: fix_markdown_complete_eq finish_def body_def cleaned_def result_def)
  from 1 2 3 4 show ?thesis unfolding cleaned_def by blast
qed

text \<open>
  C8 as stated fails: a trailing line that is blank (whitespace only, which is blank for
  the code's own test) is kept; only the empty lines behind it go.
\<close>

theorem blank_trailing_line_kept_counterexample:
  "is_blank '' ''
   \<and> str_split (CHR 0x0A) ''a\<newline> \<newline>\<newline>'' = [''a'', '' '', [], []]
   \<and> fix_markdown_complete ''a\<newline> \<newline>\<newline>'' = Inr ''a\<newline> \<newline>''
   \<and> str_split (CHR 0x0A) ''a\<newline> \<newline>'' = [''a'', '' '', []]"
  by code_simp

subsection \<open>C9\<close>



subsection \<open>C10\<close>

text \<open>
  C10. \<open>fix_markdown_errors\<close> keeps the line structure: its output, split at newlines,
  has as many lines as its input split at newlines.
\<close>

theorem line_count_preserved:
  "length (str_split (CHR 0x0A) (fix_markdown_errors content))
   = length (str_split (CHR 0x0A) content)"
  by (simp add: split_fix_markdown_errors length_errors_loop)

end
